theory Spec2Isabelle
  imports Main
begin

section \<open>Data model (publisher.ts)\<close>

text \<open>
  The two enums of the broker. Both are string enums whose values are their own names.
\<close>

datatype Domain = INVENTORY | ORDER | PAYMENT | DELIVERY | NOTIFICATION

datatype Topic =
    ORDER_CREATED
  | PAYMENT_SUCCESS
  | PRODUCTS_READY
  | ORDER_SHIPPING_READY
  | INVOICE_READY
  | PAY_SUCCESS_MESSAGE_DELIVERED

text \<open>
  Event payloads are JSON values that the broker only copies around; they are kept as
  their serialised text. Event ids are the strings produced by \<open>uuid()\<close>.
  \<open>tries\<close> is a counter that starts at 0 and is only ever incremented, a natural
  number here. \<open>processedAt\<close> is a \<open>Date\<close>, kept as the clock reading in
  milliseconds.

  Several interfaces of the source use the same field names (\<open>eventId\<close>,
  \<open>tries\<close>, \<open>content\<close>, \<open>topic\<close>, \<open>subscriber\<close>); record
  fields share one name space here, so those fields carry a prefix naming their
  interface.
\<close>

type_synonym content = string

record LoggedEvent =
  le_parentId :: string
  le_eventId :: string
  le_content :: content

record EventLog =
  el_topic :: Topic
  el_events :: "LoggedEvent list"

record ProcessedEvent =
  pd_eventId :: string
  pd_tries :: nat
  pd_processedAt :: nat

record ProcessingEvent =
  pg_eventId :: string
  pg_content :: content
  pg_tries :: nat

record DomainTopicQueue =
  q_subscriber :: Domain
  q_topic :: Topic
  processedEvents :: "ProcessedEvent list"
  processingEvents :: "ProcessingEvent list"

record ErrorInfo =
  er_message :: string
  er_code :: string
  er_trace :: string

record DomainTopicErrors =
  dte_subscriber :: Domain
  dte_topic :: Topic
  dte_eventId :: string
  dte_error :: ErrorInfo

record DeadLetterQueue =
  dl_eventId :: string
  dl_topic :: Topic
  dl_subscriber :: Domain

text \<open>
  The persisted documents, one component per file-name template of the source:
  \<open>queue-${subscriber}-${topic}.json\<close>, \<open>events-${topic}.json\<close>,
  \<open>subscription-error.json\<close> and \<open>dead-letter-queue.json\<close>. A file that does
  not exist is \<open>None\<close>, which is what \<open>readJSON\<close> resolves to on ENOENT
  (\<open>null\<close>). The enum values contain no hyphen, so a file name determines the
  subscriber and the topic it was built from, and the pair is used as the key.
  I/O failures other than ENOENT are outside the model.
\<close>

record FileSystem =
  queueFiles :: "Domain \<times> Topic \<Rightarrow> DomainTopicQueue option"
  eventFiles :: "Topic \<Rightarrow> EventLog option"
  errorFile :: "DomainTopicErrors list option"
  deadLetterFile :: "DeadLetterQueue list option"

text \<open>The two in-memory registries \<open>subscribers\<close> and \<open>topics\<close>.\<close>

record SubscriberObj =
  so_subscriber :: Domain
  so_topics :: "Topic list"

record TopicObj =
  to_topic :: Topic
  to_subscribers :: "Domain list"

text \<open>
  Everything the source raises. The two \<open>... does not exist\<close> messages of
  \<open>incrementTries\<close> and \<open>eventAcknowledged\<close> differ only in punctuation and are
  one constructor. \<open>TypeError\<close> is what JavaScript raises when a property of
  \<open>undefined\<close> is read. \<open>SubscriberNotInitialized\<close> cannot occur in the source
  (the subscribing closure only exists once \<open>subscriberInitializer\<close> has returned
  it); it makes \<open>subscribe\<close> total.
\<close>

datatype error =
    SubscriberInitializedTwice Domain
  | TopicSubscribedTwice Topic Domain
  | QueueFileDoesNotExist Domain Topic
  | ProcessedEventNotFound Domain Topic string
  | TypeError
  | HandlerRejected string
  | SubscriberNotInitialized Domain

text \<open>
  The event handler is a callback supplied by the caller. Its promise either resolves
  (\<open>Inr ()\<close>) or rejects (\<open>Inl\<close>); the outcome may depend on its two arguments and
  on everything it has been called with before, which is the log \<open>handlerCalls\<close>.
  Each entry of the log also records, for the statements below, which subscription made
  the call, whether the call went through the \<open>setTimeout\<close> branch of
  \<open>tryProcessing\<close>, the clock, and the files as they were when the handler started.
  What a handler does to the files itself (for instance by publishing) is not modelled.
\<close>

record HandlerCall =
  hc_subscriber :: Domain
  hc_topic :: Topic
  hc_parentId :: string
  hc_content :: content
  hc_isRetry :: bool
  hc_at :: nat
  hc_files :: FileSystem

type_synonym eventHandler = "HandlerCall list \<Rightarrow> string \<Rightarrow> content \<Rightarrow> error + unit"

record Listener =
  ln_topic :: Topic
  ln_subscriber :: Domain
  ln_handler :: eventHandler

text \<open>
  A call of \<open>executeEventHandler\<close> is an asynchronous function: it runs until its
  next \<open>await\<close> and gives way to whatever else is pending. A delivery in flight is
  such a call, suspended at one of its awaits: the arguments of the call, the loop
  variable \<open>triesCount\<close>, the \<open>isRetry\<close> of the current attempt, and the await
  it is at. The awaits of one attempt are, in order: the timer of \<open>setTimeout\<close>
  (with the time it is due); the \<open>readJSON\<close> of \<open>incrementTries\<close>; its
  \<open>writeJSON\<close> (with the queue being written); the continuation that calls the
  handler; the handler's promise (with its outcome); the \<open>readJSON\<close> of
  \<open>eventAcknowledged\<close>; and its \<open>writeJSON\<close>, which the source does not await
  (the promise of the delivery is resolved while this write is pending).
\<close>

datatype Phase =
    AwaitTimer nat
  | AwaitIncrementRead
  | AwaitIncrementWrite DomainTopicQueue
  | AwaitHandlerCall
  | AwaitHandler "error + unit"
  | AwaitAcknowledgeRead
  | AwaitAcknowledgeWrite DomainTopicQueue
  | Finished

record Delivery =
  dv_eventHandler :: eventHandler
  dv_subscriber :: Domain
  dv_topic :: Topic
  dv_content :: content
  dv_tries :: nat
  dv_parentId :: string
  dv_triesCount :: nat
  dv_isRetry :: bool
  dv_phase :: Phase

text \<open>
  The state of the process and of the disk: the files, the two registries, the
  emitter's listeners, the deliveries in flight, and the clock. \<open>handlerCalls\<close> is
  the log of handler calls described above.
\<close>

record World =
  files :: FileSystem
  subscribers :: "SubscriberObj list"
  topics :: "TopicObj list"
  listeners :: "Listener list"
  inFlight :: "Delivery list"
  handlerCalls :: "HandlerCall list"
  clock :: nat

section \<open>Persistence layer (fileSystem.ts)\<close>

definition readJSON_queue :: "Domain \<Rightarrow> Topic \<Rightarrow> World \<Rightarrow> DomainTopicQueue option" where
  "readJSON_queue s t w = queueFiles (files w) (s, t)"

definition writeJSON_queue :: "Domain \<Rightarrow> Topic \<Rightarrow> DomainTopicQueue \<Rightarrow> World \<Rightarrow> World" where
  "writeJSON_queue s t q w =
     w\<lparr>files := (files w)\<lparr>queueFiles := (queueFiles (files w))((s, t) \<mapsto> q)\<rparr>\<rparr>"

definition readJSON_log :: "Topic \<Rightarrow> World \<Rightarrow> EventLog option" where
  "readJSON_log t w = eventFiles (files w) t"

definition writeJSON_log :: "Topic \<Rightarrow> EventLog \<Rightarrow> World \<Rightarrow> World" where
  "writeJSON_log t l w =
     w\<lparr>files := (files w)\<lparr>eventFiles := (eventFiles (files w))(t \<mapsto> l)\<rparr>\<rparr>"

section \<open>Queue operations (publisher.ts)\<close>

text \<open>
  \<open>Array.prototype.findIndex\<close>: the index of the first element that satisfies the
  predicate; JavaScript's \<open>-1\<close> is \<open>None\<close>. \<open>Array.prototype.find\<close> returns
  that same element, so \<open>incrementTries\<close> below uses the index to update it in place.
\<close>

fun findIndex :: "('a \<Rightarrow> bool) \<Rightarrow> 'a list \<Rightarrow> nat option" where
  "findIndex P [] = None"
| "findIndex P (x # xs) = (if P x then Some 0 else map_option Suc (findIndex P xs))"

text \<open>\<open>xs.splice(index, 1)\<close>: the removed elements and what is left of \<open>xs\<close>.\<close>

definition splice1 :: "nat \<Rightarrow> 'a list \<Rightarrow> 'a list \<times> 'a list" where
  "splice1 index xs = (take 1 (drop index xs), take index xs @ drop (Suc index) xs)"

text \<open>
  \<open>incrementTries\<close>: read the queue file, raise if it is missing, increment
  \<open>tries\<close> of the first entry with the event id (a \<open>TypeError\<close> if there is none,
  since \<open>find\<close> returned \<open>undefined\<close>), write the file back. Every operation
  returns its outcome together with the world it leaves behind.
\<close>

definition incrementTries :: "Domain \<Rightarrow> Topic \<Rightarrow> string \<Rightarrow> World \<Rightarrow> (error + unit) \<times> World" where
  "incrementTries s t eventId w =
     (case readJSON_queue s t w of
        None \<Rightarrow> (Inl (QueueFileDoesNotExist s t), w)
      | Some topicLogs \<Rightarrow>
          (case findIndex (\<lambda>v. pg_eventId v = eventId) (processingEvents topicLogs) of
             None \<Rightarrow> (Inl TypeError, w)
           | Some i \<Rightarrow>
               (let found = processingEvents topicLogs ! i;
                    topicLogs' = topicLogs\<lparr>processingEvents :=
                      (processingEvents topicLogs)[i := found\<lparr>pg_tries := pg_tries found + 1\<rparr>]\<rparr>
                in (Inr (), writeJSON_queue s t topicLogs' w))))"

text \<open>
  \<open>eventAcknowledged\<close>: read the queue file, raise if it is missing or if the event
  is not in \<open>processingEvents\<close>; otherwise splice the first entry out, push the
  processed record with that entry's \<open>tries\<close> and the current date, filter every
  remaining entry with the id out of \<open>processingEvents\<close>, and write the file (the
  source does not await this last write; here it has happened when the call returns).
\<close>

definition eventAcknowledged :: "Domain \<Rightarrow> Topic \<Rightarrow> string \<Rightarrow> World \<Rightarrow> (error + unit) \<times> World" where
  "eventAcknowledged s t parentId w =
     (case readJSON_queue s t w of
        None \<Rightarrow> (Inl (QueueFileDoesNotExist s t), w)
      | Some domainTopicQueue \<Rightarrow>
          (case findIndex (\<lambda>v. pg_eventId v = parentId) (processingEvents domainTopicQueue) of
             None \<Rightarrow> (Inl (ProcessedEventNotFound s t parentId), w)
           | Some index \<Rightarrow>
               (case splice1 index (processingEvents domainTopicQueue) of
                  ([], _) \<Rightarrow> (Inl TypeError, w)
                | (processedEvent # _, rest) \<Rightarrow>
                    (let pushed = processedEvents domainTopicQueue @
                           [\<lparr>pd_eventId = parentId, pd_tries = pg_tries processedEvent,
                             pd_processedAt = clock w\<rparr>];
                         filtered = filter (\<lambda>v. pg_eventId v \<noteq> parentId) rest
                     in (Inr (), writeJSON_queue s t
                           (domainTopicQueue\<lparr>processedEvents := pushed,
                                              processingEvents := filtered\<rparr>) w)))))"

section \<open>Delivery engine (publisher.ts): one delivery with nothing else in flight\<close>

text \<open>
  \<open>tryProcessing\<close> and \<open>executeEventHandler\<close> as functions from world to world:
  what one delivery does from its start to its end when no other operation on the files
  happens in between. Deliveries that overlap are the subject of the next section.
\<close>

text \<open>\<open>setTimeout(..., 5000)\<close>: the callback runs once the clock has advanced by 5000 ms.\<close>

definition setTimeout5000 :: "World \<Rightarrow> World" where
  "setTimeout5000 w = w\<lparr>clock := clock w + 5000\<rparr>"

text \<open>
  The body that both branches of \<open>tryProcessing\<close> share: \<open>incrementTries\<close>, then
  the handler, then \<open>eventAcknowledged\<close>; the first of them that raises rejects the
  promise with that error.
\<close>

definition attemptBody ::
  "Domain \<Rightarrow> Topic \<Rightarrow> string \<Rightarrow> content \<Rightarrow> eventHandler \<Rightarrow> bool \<Rightarrow> World \<Rightarrow> (error + unit) \<times> World" where
  "attemptBody s t parentId c eventHandler isRetry w =
     (case incrementTries s t parentId w of
        (Inl err, w1) \<Rightarrow> (Inl err, w1)
      | (Inr _, w1) \<Rightarrow>
          (let call = \<lparr>hc_subscriber = s, hc_topic = t, hc_parentId = parentId, hc_content = c,
                       hc_isRetry = isRetry, hc_at = clock w1, hc_files = files w1\<rparr>;
               w2 = w1\<lparr>handlerCalls := handlerCalls w1 @ [call]\<rparr>
           in (case eventHandler (handlerCalls w1) parentId c of
                 Inl err \<Rightarrow> (Inl err, w2)
               | Inr _ \<Rightarrow> eventAcknowledged s t parentId w2)))"

definition tryProcessing ::
  "Domain \<Rightarrow> Topic \<Rightarrow> string \<Rightarrow> content \<Rightarrow> eventHandler \<Rightarrow> bool \<Rightarrow> World \<Rightarrow> (error + unit) \<times> World" where
  "tryProcessing s t parentId c eventHandler isRetry w =
     (if isRetry then attemptBody s t parentId c eventHandler isRetry (setTimeout5000 w)
      else attemptBody s t parentId c eventHandler isRetry w)"

text \<open>
  The \<open>while\<close> loop of \<open>executeEventHandler\<close>, over its two variables \<open>acked\<close>
  and \<open>triesCount\<close>. \<open>triesCount\<close> is incremented first and then compared with
  \<open>tries\<close> to give \<open>isRetry\<close>; \<open>.then\<close> sets \<open>acked\<close>, \<open>.catch\<close> drops the
  error.
\<close>

function executeEventHandler_loop ::
  "eventHandler \<Rightarrow> Domain \<Rightarrow> Topic \<Rightarrow> content \<Rightarrow> nat \<Rightarrow> string \<Rightarrow> bool \<Rightarrow> nat \<Rightarrow> World \<Rightarrow> World" where
  "executeEventHandler_loop eventHandler s t c tries parentId acked triesCount w =
     (if \<not> acked \<and> triesCount < 5 then
        (let triesCount' = triesCount + 1 in
         case tryProcessing s t parentId c eventHandler (triesCount' \<noteq> tries) w of
           (Inr _, w') \<Rightarrow> executeEventHandler_loop eventHandler s t c tries parentId True triesCount' w'
         | (Inl _, w') \<Rightarrow> executeEventHandler_loop eventHandler s t c tries parentId acked triesCount' w')
      else w)"
  by pat_completeness auto
termination
  by (relation "measure (\<lambda>(h, s, t, c, tries, p, acked, triesCount, w). 5 - triesCount)") auto

declare executeEventHandler_loop.simps [simp del]

definition executeEventHandler ::
  "eventHandler \<Rightarrow> Domain \<Rightarrow> Topic \<Rightarrow> content \<Rightarrow> nat \<Rightarrow> string \<Rightarrow> World \<Rightarrow> World" where
  "executeEventHandler eventHandler s t c tries parentId w =
     executeEventHandler_loop eventHandler s t c tries parentId False tries w"

section \<open>Delivery engine (publisher.ts): deliveries in flight\<close>

text \<open>
  What \<open>incrementTries\<close> and \<open>eventAcknowledged\<close> compute between their
  \<open>readJSON\<close> and their \<open>writeJSON\<close>, from the queue that was read: the queue
  to write, or \<open>None\<close> when they raise instead. (\<open>incrementTries\<close> and
  \<open>eventAcknowledged\<close> above are the read, this computation and the write in one
  step, see \<open>incrementTries_as_read_write\<close> and
  \<open>eventAcknowledged_as_read_write\<close>.)
\<close>

definition incrementedQueue :: "string \<Rightarrow> DomainTopicQueue \<Rightarrow> DomainTopicQueue option" where
  "incrementedQueue eventId topicLogs =
     (case findIndex (\<lambda>v. pg_eventId v = eventId) (processingEvents topicLogs) of
        None \<Rightarrow> None
      | Some i \<Rightarrow>
          (let found = processingEvents topicLogs ! i
           in Some (topicLogs\<lparr>processingEvents :=
                (processingEvents topicLogs)[i := found\<lparr>pg_tries := pg_tries found + 1\<rparr>]\<rparr>)))"

definition acknowledgedQueue :: "string \<Rightarrow> nat \<Rightarrow> DomainTopicQueue \<Rightarrow> DomainTopicQueue option" where
  "acknowledgedQueue parentId now domainTopicQueue =
     (case findIndex (\<lambda>v. pg_eventId v = parentId) (processingEvents domainTopicQueue) of
        None \<Rightarrow> None
      | Some index \<Rightarrow>
          (case splice1 index (processingEvents domainTopicQueue) of
             ([], _) \<Rightarrow> None
           | (processedEvent # _, rest) \<Rightarrow>
               (let pushed = processedEvents domainTopicQueue @
                      [\<lparr>pd_eventId = parentId, pd_tries = pg_tries processedEvent,
                        pd_processedAt = now\<rparr>];
                    filtered = filter (\<lambda>v. pg_eventId v \<noteq> parentId) rest
                in Some (domainTopicQueue\<lparr>processedEvents := pushed,
                                          processingEvents := filtered\<rparr>))))"

text \<open>
  The head of the \<open>while\<close> loop, reached at the start of the call and after every
  rejected attempt (\<open>acked\<close> is false there): when \<open>triesCount < 5\<close>, the next
  attempt begins, \<open>triesCount\<close> is incremented, \<open>isRetry\<close> is computed, and
  \<open>tryProcessing\<close> either sets its timer or goes straight to \<open>incrementTries\<close>;
  otherwise the call returns.
\<close>

definition nextAttempt :: "Delivery \<Rightarrow> World \<Rightarrow> Delivery" where
  "nextAttempt d w =
     (if dv_triesCount d < 5 then
        (let triesCount = dv_triesCount d + 1;
             isRetry = (triesCount \<noteq> dv_tries d)
         in d\<lparr>dv_triesCount := triesCount, dv_isRetry := isRetry,
              dv_phase := (if isRetry then AwaitTimer (clock w + 5000) else AwaitIncrementRead)\<rparr>)
      else d\<lparr>dv_phase := Finished\<rparr>)"

text \<open>The call \<open>executeEventHandler(...)\<close>, up to its first await.\<close>

definition startDelivery ::
  "eventHandler \<Rightarrow> Domain \<Rightarrow> Topic \<Rightarrow> content \<Rightarrow> nat \<Rightarrow> string \<Rightarrow> World \<Rightarrow> Delivery" where
  "startDelivery eventHandler s t c tries parentId w =
     nextAttempt \<lparr>dv_eventHandler = eventHandler, dv_subscriber = s, dv_topic = t,
       dv_content = c, dv_tries = tries, dv_parentId = parentId, dv_triesCount = tries,
       dv_isRetry = False, dv_phase = Finished\<rparr> w"

text \<open>
  One step of a delivery: the await it is at completes, and the delivery runs to its
  next await. A timer completes no earlier than it is due. A read sees the file as it is
  at that moment; the write that follows it writes what was computed from that read,
  whatever has been written to the file in between. An error raised by
  \<open>incrementTries\<close>, by the handler or by \<open>eventAcknowledged\<close> rejects the
  promise of \<open>tryProcessing\<close>, is dropped by \<open>catch\<close>, and leads to the head of
  the loop. The handler is called, and the call is logged, when the write of
  \<open>incrementTries\<close> has completed and the continuation runs.
\<close>

definition stepDelivery :: "Delivery \<Rightarrow> World \<Rightarrow> Delivery \<times> World" where
  "stepDelivery d w =
     (case dv_phase d of
        AwaitTimer due \<Rightarrow> (d\<lparr>dv_phase := AwaitIncrementRead\<rparr>, w\<lparr>clock := max (clock w) due\<rparr>)
      | AwaitIncrementRead \<Rightarrow>
          (case readJSON_queue (dv_subscriber d) (dv_topic d) w of
             None \<Rightarrow> (nextAttempt d w, w)
           | Some topicLogs \<Rightarrow>
               (case incrementedQueue (dv_parentId d) topicLogs of
                  None \<Rightarrow> (nextAttempt d w, w)
                | Some topicLogs' \<Rightarrow> (d\<lparr>dv_phase := AwaitIncrementWrite topicLogs'\<rparr>, w)))
      | AwaitIncrementWrite topicLogs' \<Rightarrow>
          (d\<lparr>dv_phase := AwaitHandlerCall\<rparr>,
           writeJSON_queue (dv_subscriber d) (dv_topic d) topicLogs' w)
      | AwaitHandlerCall \<Rightarrow>
          (let call = \<lparr>hc_subscriber = dv_subscriber d, hc_topic = dv_topic d,
                 hc_parentId = dv_parentId d, hc_content = dv_content d,
                 hc_isRetry = dv_isRetry d, hc_at = clock w, hc_files = files w\<rparr>
           in (d\<lparr>dv_phase := AwaitHandler
                   (dv_eventHandler d (handlerCalls w) (dv_parentId d) (dv_content d))\<rparr>,
               w\<lparr>handlerCalls := handlerCalls w @ [call]\<rparr>))
      | AwaitHandler outcome \<Rightarrow>
          (case outcome of
             Inl err \<Rightarrow> (nextAttempt d w, w)
           | Inr _ \<Rightarrow> (d\<lparr>dv_phase := AwaitAcknowledgeRead\<rparr>, w))
      | AwaitAcknowledgeRead \<Rightarrow>
          (case readJSON_queue (dv_subscriber d) (dv_topic d) w of
             None \<Rightarrow> (nextAttempt d w, w)
           | Some domainTopicQueue \<Rightarrow>
               (case acknowledgedQueue (dv_parentId d) (clock w) domainTopicQueue of
                  None \<Rightarrow> (nextAttempt d w, w)
                | Some domainTopicQueue' \<Rightarrow>
                    (d\<lparr>dv_phase := AwaitAcknowledgeWrite domainTopicQueue'\<rparr>, w)))
      | AwaitAcknowledgeWrite domainTopicQueue' \<Rightarrow>
          (d\<lparr>dv_phase := Finished\<rparr>,
           writeJSON_queue (dv_subscriber d) (dv_topic d) domainTopicQueue' w)
      | Finished \<Rightarrow> (d, w))"

text \<open>
  A bound on the steps that a delivery still has to take: eight for every attempt not
  yet begun, and the awaits left in the current one.
\<close>

definition rank :: "Delivery \<Rightarrow> nat" where
  "rank d =
     (case dv_phase d of
        Finished \<Rightarrow> 0
      | AwaitAcknowledgeWrite _ \<Rightarrow> 1
      | AwaitAcknowledgeRead \<Rightarrow> (5 - dv_triesCount d) * 8 + 2
      | AwaitHandler _ \<Rightarrow> (5 - dv_triesCount d) * 8 + 3
      | AwaitHandlerCall \<Rightarrow> (5 - dv_triesCount d) * 8 + 4
      | AwaitIncrementWrite _ \<Rightarrow> (5 - dv_triesCount d) * 8 + 5
      | AwaitIncrementRead \<Rightarrow> (5 - dv_triesCount d) * 8 + 6
      | AwaitTimer _ \<Rightarrow> (5 - dv_triesCount d) * 8 + 7)"

text \<open>A delivery stepped to its end with no step of anything else in between.\<close>

function runAlone :: "Delivery \<Rightarrow> World \<Rightarrow> World" where
  "runAlone d w =
     (if dv_phase d = Finished then w
      else case stepDelivery d w of (d', w') \<Rightarrow> runAlone d' w')"
  by pat_completeness auto
termination
proof (relation "measure (\<lambda>(d, w). rank d)")
  show "wf (measure (\<lambda>(d, w). rank d))"
    by simp
next
  fix d :: Delivery and w :: World and d' :: Delivery and w' :: World
  assume active: "dv_phase d \<noteq> Finished" and step: "(d', w') = stepDelivery d w"
  from step have "d' = fst (stepDelivery d w)"
    by (metis fst_conv)
  have again: "rank (nextAttempt d w) < (5 - dv_triesCount d) * 8 + 2"
  proof (cases "dv_triesCount d < 5")
    case True
    then have count: "dv_triesCount (nextAttempt d w) = dv_triesCount d + 1"
      by (simp add: nextAttempt_def Let_def)
    from True have "dv_phase (nextAttempt d w) = AwaitTimer (clock w + 5000) \<or>
        dv_phase (nextAttempt d w) = AwaitIncrementRead"
      by (simp add: nextAttempt_def Let_def)
    then have "rank (nextAttempt d w) \<le> (5 - (dv_triesCount d + 1)) * 8 + 7"
      by (auto simp only: rank_def count Phase.case)
    also from True have "\<dots> < (5 - dv_triesCount d) * 8 + 2"
      by arith
    finally show ?thesis .
  next
    case False
    then show ?thesis
      by (simp add: nextAttempt_def rank_def)
  qed
  have "rank (fst (stepDelivery d w)) < rank d"
  proof (cases "dv_phase d")
    case (AwaitTimer due)
    then show ?thesis by (simp add: stepDelivery_def rank_def)
  next
    case AwaitIncrementRead
    with again show ?thesis
      by (simp add: stepDelivery_def split: option.splits) (simp add: rank_def)
  next
    case (AwaitIncrementWrite q)
    then show ?thesis by (simp add: stepDelivery_def rank_def)
  next
    case AwaitHandlerCall
    then show ?thesis by (simp add: stepDelivery_def rank_def Let_def)
  next
    case (AwaitHandler outcome)
    with again show ?thesis
      by (simp add: stepDelivery_def split: sum.splits) (simp add: rank_def)
  next
    case AwaitAcknowledgeRead
    with again show ?thesis
      by (simp add: stepDelivery_def split: option.splits) (simp add: rank_def)
  next
    case (AwaitAcknowledgeWrite q)
    then show ?thesis by (simp add: stepDelivery_def rank_def)
  next
    case Finished
    with active show ?thesis by simp
  qed
  with \<open>d' = fst (stepDelivery d w)\<close> have "rank d' < rank d"
    by simp
  then show "((d', w'), d, w) \<in> measure (\<lambda>(d, w). rank d)"
    by simp
qed

declare runAlone.simps [simp del]

text \<open>
  The deliveries in flight are kept in the order in which they were started; a delivery
  that has finished stays in the list. \<open>startInFlight\<close> is a call of
  \<open>executeEventHandler\<close> whose promise the caller does not wait for at that point;
  \<open>stepInFlight\<close> is one step of the delivery at a given position.
\<close>

definition startInFlight ::
  "eventHandler \<Rightarrow> Domain \<Rightarrow> Topic \<Rightarrow> content \<Rightarrow> nat \<Rightarrow> string \<Rightarrow> World \<Rightarrow> World" where
  "startInFlight eventHandler s t c tries parentId w =
     w\<lparr>inFlight := inFlight w @ [startDelivery eventHandler s t c tries parentId w]\<rparr>"

definition stepInFlight :: "nat \<Rightarrow> World \<Rightarrow> World" where
  "stepInFlight i w =
     (if i < length (inFlight w) then
        (case stepDelivery (inFlight w ! i) w of
           (d', w') \<Rightarrow> w'\<lparr>inFlight := (inFlight w)[i := d']\<rparr>)
      else w)"

text \<open>
  The order in which the event loop completes the awaits is not fixed by the source.
  \<open>eventLoop\<close> is one turn of the loop in the order of a run in which every read and
  write completes at once: each delivery that can take a step takes one, in the order
  in which the deliveries were started; a delivery waiting for its timer can take its
  step when the timer is due, and when nothing can take a step the clock advances to the
  earliest timer.
\<close>

definition eligible :: "nat \<Rightarrow> Delivery \<Rightarrow> bool" where
  "eligible now d =
     (case dv_phase d of AwaitTimer due \<Rightarrow> due \<le> now | Finished \<Rightarrow> False | _ \<Rightarrow> True)"

definition timers :: "Delivery list \<Rightarrow> nat list" where
  "timers ds = concat (map (\<lambda>d. case dv_phase d of AwaitTimer due \<Rightarrow> [due] | _ \<Rightarrow> []) ds)"

fun stepAll :: "Delivery list \<Rightarrow> World \<Rightarrow> Delivery list \<times> World" where
  "stepAll [] w = ([], w)"
| "stepAll (d # ds) w =
     (case (if eligible (clock w) d then stepDelivery d w else (d, w)) of
        (d', w') \<Rightarrow> (case stepAll ds w' of (ds', w'') \<Rightarrow> (d' # ds', w'')))"

definition eventLoop :: "World \<Rightarrow> World" where
  "eventLoop w =
     (let w0 = (if list_ex (eligible (clock w)) (inFlight w) then w
                else (case timers (inFlight w) of
                        [] \<Rightarrow> w
                      | due # dues \<Rightarrow> w\<lparr>clock := max (clock w) (fold min dues due)\<rparr>))
      in case stepAll (inFlight w0) w0 of (ds, w') \<Rightarrow> w'\<lparr>inFlight := ds\<rparr>)"

text \<open>
  \<open>await Promise.all(...)\<close> over the deliveries started from position \<open>n\<close> on:
  the loop turns until the promise of each of them is resolved, which it is when the
  delivery has finished or only its last write is pending. \<open>settle\<close> turns the loop
  until nothing is in flight any more. The number of turns is bounded by the ranks.
\<close>

definition resolved :: "Delivery \<Rightarrow> bool" where
  "resolved d =
     (case dv_phase d of Finished \<Rightarrow> True | AwaitAcknowledgeWrite _ \<Rightarrow> True | _ \<Rightarrow> False)"

fun turns :: "nat \<Rightarrow> (World \<Rightarrow> bool) \<Rightarrow> World \<Rightarrow> World" where
  "turns 0 stop w = w"
| "turns (Suc n) stop w = (if stop w then w else turns n stop (eventLoop w))"

definition awaitAll :: "nat \<Rightarrow> World \<Rightarrow> World" where
  "awaitAll n w =
     turns (sum_list (map rank (inFlight w))) (\<lambda>w. list_all resolved (drop n (inFlight w))) w"

definition settle :: "World \<Rightarrow> World" where
  "settle w =
     turns (sum_list (map rank (inFlight w)))
       (\<lambda>w. list_all (\<lambda>d. dv_phase d = Finished) (inFlight w)) w"

section \<open>Subscribing (publisher.ts)\<close>

definition subscriberInitializer :: "Domain \<Rightarrow> World \<Rightarrow> (error + unit) \<times> World" where
  "subscriberInitializer s w =
     (case find (\<lambda>v. so_subscriber v = s) (subscribers w) of
        Some _ \<Rightarrow> (Inl (SubscriberInitializedTwice s), w)
      | None \<Rightarrow> (Inr (), w\<lparr>subscribers := subscribers w @ [\<lparr>so_subscriber = s, so_topics = []\<rparr>]\<rparr>))"

text \<open>
  The first part of the closure that \<open>subscriberInitializer\<close> returns: the check for
  a second subscription and the two registry updates.
\<close>

definition registerTopic :: "Domain \<Rightarrow> Topic \<Rightarrow> World \<Rightarrow> (error + unit) \<times> World" where
  "registerTopic s t w =
     (case findIndex (\<lambda>v. so_subscriber v = s) (subscribers w) of
        None \<Rightarrow> (Inl (SubscriberNotInitialized s), w)
      | Some i \<Rightarrow>
          (let subscriberObj = subscribers w ! i in
           case find (\<lambda>v. v = t) (so_topics subscriberObj) of
             Some _ \<Rightarrow> (Inl (TopicSubscribedTwice t s), w)
           | None \<Rightarrow>
               (let subscribers' = (subscribers w)
                      [i := subscriberObj\<lparr>so_topics := so_topics subscriberObj @ [t]\<rparr>];
                    topics' =
                      (case findIndex (\<lambda>v. to_topic v = t) (topics w) of
                         None \<Rightarrow> topics w @ [\<lparr>to_topic = t, to_subscribers = [s]\<rparr>]
                       | Some j \<Rightarrow> (topics w)
                           [j := (topics w ! j)\<lparr>to_subscribers := to_subscribers (topics w ! j) @ [s]\<rparr>])
                in (Inr (), w\<lparr>subscribers := subscribers', topics := topics'\<rparr>))))"

text \<open>
  The second part: the queue file is read; when it does not exist, a new one is written
  whose \<open>processingEvents\<close> are the events of the topic's log, each with
  \<open>tries: 0\<close>, and whose \<open>processedEvents\<close> are empty. The result is the queue
  that the replay then runs over.
\<close>

definition initializeQueue :: "Domain \<Rightarrow> Topic \<Rightarrow> World \<Rightarrow> DomainTopicQueue \<times> World" where
  "initializeQueue s t w =
     (case readJSON_queue s t w of
        Some domainTopicQueue \<Rightarrow> (domainTopicQueue, w)
      | None \<Rightarrow>
          (let topicLogs = readJSON_log t w;
               created = \<lparr>q_subscriber = s, q_topic = t, processedEvents = [],
                          processingEvents =
                            (case topicLogs of
                               Some l \<Rightarrow> map (\<lambda>v. \<lparr>pg_eventId = le_eventId v,
                                   pg_content = le_content v, pg_tries = 0\<rparr>) (el_events l)
                             | None \<Rightarrow> [])\<rparr>
           in (created, writeJSON_queue s t created w)))"

text \<open>
  The third part: the \<open>map\<close> over \<open>processingEvents\<close> calls
  \<open>executeEventHandler\<close> for every entry, with the entry's \<open>tries\<close>; each call
  runs to its first await, so all the deliveries are in flight together. The closure
  then waits for all of them (\<open>Promise.all\<close>) and registers its listener.
\<close>

fun replay :: "eventHandler \<Rightarrow> Domain \<Rightarrow> Topic \<Rightarrow> ProcessingEvent list \<Rightarrow> World \<Rightarrow> World" where
  "replay eventHandler s t [] w = w"
| "replay eventHandler s t (v # vs) w =
     replay eventHandler s t vs
       (startInFlight eventHandler s t (pg_content v) (pg_tries v) (pg_eventId v) w)"

definition subscribe :: "Domain \<Rightarrow> Topic \<Rightarrow> eventHandler \<Rightarrow> World \<Rightarrow> (error + unit) \<times> World" where
  "subscribe s t eventHandler w =
     (case registerTopic s t w of
        (Inl err, w1) \<Rightarrow> (Inl err, w1)
      | (Inr _, w1) \<Rightarrow>
          (case initializeQueue s t w1 of
             (domainTopicQueue, w2) \<Rightarrow>
               (let w3 = replay eventHandler s t (processingEvents domainTopicQueue) w2;
                    w4 = awaitAll (length (inFlight w2)) w3
                in (Inr (), w4\<lparr>listeners := listeners w4 @
                      [\<lparr>ln_topic = t, ln_subscriber = s, ln_handler = eventHandler\<rparr>]\<rparr>))))"

section \<open>Publishing (publisher.ts)\<close>

text \<open>
  \<open>persistEvent\<close> draws the event id from \<open>uuid()\<close>; the id drawn is the first
  argument here.
\<close>

definition persistEvent :: "string \<Rightarrow> Topic \<Rightarrow> content \<Rightarrow> string \<Rightarrow> World \<Rightarrow> World" where
  "persistEvent eventId t c parentId w =
     (let eventLogs = (case readJSON_log t w of
                         None \<Rightarrow> \<lparr>el_topic = t, el_events = []\<rparr>
                       | Some l \<Rightarrow> l)
      in writeJSON_log t
           (eventLogs\<lparr>el_events := el_events eventLogs @
              [\<lparr>le_parentId = parentId, le_eventId = eventId, le_content = c\<rparr>]\<rparr>) w)"

text \<open>The callback that \<open>persistEventsInSubscriberQueues\<close> maps over the subscribers.\<close>

definition pushToQueue :: "string \<Rightarrow> Topic \<Rightarrow> content \<Rightarrow> Domain \<Rightarrow> World \<Rightarrow> World" where
  "pushToQueue eventId t c s w =
     (case readJSON_queue s t w of
        None \<Rightarrow> w
      | Some logs \<Rightarrow>
          writeJSON_queue s t
            (logs\<lparr>processingEvents := processingEvents logs @
               [\<lparr>pg_eventId = eventId, pg_content = c, pg_tries = 0\<rparr>]\<rparr>) w)"

definition persistEventsInSubscriberQueues :: "string \<Rightarrow> Topic \<Rightarrow> content \<Rightarrow> World \<Rightarrow> World" where
  "persistEventsInSubscriberQueues eventId t c w =
     (case find (\<lambda>v. to_topic v = t) (topics w) of
        None \<Rightarrow> w
      | Some topicObj \<Rightarrow> fold (pushToQueue eventId t c) (to_subscribers topicObj) w)"

text \<open>
  \<open>emitter.emit\<close>: every listener registered for the topic calls
  \<open>executeEventHandler\<close> with \<open>tries = 0\<close>, in the order of registration, and
  does not wait for it: the deliveries are in flight when \<open>emit\<close>, and then
  \<open>publish\<close>, return.
\<close>

fun emit :: "Topic \<Rightarrow> content \<Rightarrow> string \<Rightarrow> Listener list \<Rightarrow> World \<Rightarrow> World" where
  "emit t c eventId [] w = w"
| "emit t c eventId (l # ls) w =
     emit t c eventId ls
       (if ln_topic l = t
        then startInFlight (ln_handler l) (ln_subscriber l) t c 0 eventId w
        else w)"

definition publish :: "string \<Rightarrow> string \<Rightarrow> Topic \<Rightarrow> content \<Rightarrow> World \<Rightarrow> World" where
  "publish eventId parentId t c w =
     (let w1 = persistEvent eventId t c parentId w;
          w2 = persistEventsInSubscriberQueues eventId t c w1
      in emit t c eventId (listeners w2) w2)"

section \<open>Process life cycle and reachable states\<close>

text \<open>A fresh installation: no file exists, nothing is registered, the clock is at 0.\<close>

definition emptyFiles :: FileSystem where
  "emptyFiles = \<lparr>queueFiles = (\<lambda>k. None), eventFiles = (\<lambda>k. None),
                  errorFile = None, deadLetterFile = None\<rparr>"

definition initialWorld :: World where
  "initialWorld = \<lparr>files = emptyFiles, subscribers = [], topics = [], listeners = [],
                    inFlight = [], handlerCalls = [], clock = 0\<rparr>"

text \<open>
  A restart of the process keeps the files and loses the module-level arrays, the
  emitter's listeners and the deliveries in flight.
\<close>

definition restart :: "World \<Rightarrow> World" where
  "restart w = w\<lparr>subscribers := [], topics := [], listeners := [], inFlight := []\<rparr>"

text \<open>
  \<open>uuid()\<close> is taken to be collision-free: the id it returns for a new event occurs
  in no queue file yet.
\<close>

definition unusedId :: "string \<Rightarrow> World \<Rightarrow> bool" where
  "unusedId eventId w =
     (\<forall>k q. queueFiles (files w) k = Some q \<longrightarrow>
        eventId \<notin> pg_eventId ` set (processingEvents q) \<and>
        eventId \<notin> pd_eventId ` set (processedEvents q))"

text \<open>
  The states the broker can be in, and can be observed in: the exported operations
  (\<open>subscriberInitializer\<close>, the subscribing closure, \<open>publish\<close> with a new id)
  and restarts, from a fresh installation; and, since the exported operations are
  sequences of file operations that interleave with those of other events, each of the
  inner operations as a step of its own, with any arguments; and the steps of the
  deliveries in flight, one at a time in any order, or a turn of the event loop. The
  source does not
  synchronise the read-modify-write cycles on a queue file, so a write can also come
  late: the queue that an operation computed from an earlier state replaces the file
  after other operations have written it. The last rule covers this: a queue file of
  one reachable world is written into another.
\<close>

inductive reachable :: "World \<Rightarrow> bool" where
  fresh: "reachable initialWorld"
| restarted: "reachable w \<Longrightarrow> reachable (restart w)"
| initialized: "reachable w \<Longrightarrow> reachable (snd (subscriberInitializer s w))"
| subscribed: "reachable w \<Longrightarrow> reachable (snd (subscribe s t h w))"
| published: "reachable w \<Longrightarrow> unusedId eventId w \<Longrightarrow> reachable (publish eventId parentId t c w)"
| registered: "reachable w \<Longrightarrow> reachable (snd (registerTopic s t w))"
| queueInitialized: "reachable w \<Longrightarrow> reachable (snd (initializeQueue s t w))"
| replayed: "reachable w \<Longrightarrow> reachable (replay h s t vs w)"
| executed: "reachable w \<Longrightarrow> reachable (executeEventHandler h s t c tries eventId w)"
| tried: "reachable w \<Longrightarrow> reachable (snd (tryProcessing s t eventId c h isRetry w))"
| incremented: "reachable w \<Longrightarrow> reachable (snd (incrementTries s t eventId w))"
| acknowledged: "reachable w \<Longrightarrow> reachable (snd (eventAcknowledged s t eventId w))"
| logged: "reachable w \<Longrightarrow> reachable (persistEvent eventId t c parentId w)"
| fannedOut: "reachable w \<Longrightarrow> unusedId eventId w \<Longrightarrow>
     reachable (persistEventsInSubscriberQueues eventId t c w)"
| emitted: "reachable w \<Longrightarrow> reachable (emit t c eventId ls w)"
| started: "reachable w \<Longrightarrow> reachable (startInFlight h s t c tries eventId w)"
| stepped: "reachable w \<Longrightarrow> reachable (stepInFlight i w)"
| turned: "reachable w \<Longrightarrow> reachable (eventLoop w)"
| awaited: "reachable w \<Longrightarrow> reachable (awaitAll n w)"
| settled: "reachable w \<Longrightarrow> reachable (settle w)"
| overwritten: "reachable w \<Longrightarrow> reachable w' \<Longrightarrow> queueFiles (files w') (s, t) = Some q \<Longrightarrow>
     reachable (writeJSON_queue s t q w)"

section \<open>Scenarios\<close>

text \<open>Three handlers: one that always rejects, one that always resolves, and one that
  rejects its first four calls and resolves from the fifth on.\<close>

definition alwaysFails :: eventHandler where
  "alwaysFails hist parentId c = Inl (HandlerRejected ''boom'')"

definition alwaysSucceeds :: eventHandler where
  "alwaysSucceeds hist parentId c = Inr ()"

definition failsFourTimes :: eventHandler where
  "failsFourTimes hist parentId c =
     (if length hist < 4 then Inl (HandlerRejected ''boom'') else Inr ())"

text \<open>
  One event published to \<open>ORDER_CREATED\<close> before anybody subscribed, then the
  \<open>PAYMENT\<close> subscriber initialised; and the same after \<open>PAYMENT\<close> has subscribed
  to the topic with a given handler.
\<close>

definition publishedWorld :: World where
  "publishedWorld =
     snd (subscriberInitializer PAYMENT
            (publish ''e1'' ''p0'' ORDER_CREATED ''{x:1}'' initialWorld))"

definition subscribedWorld :: "eventHandler \<Rightarrow> World" where
  "subscribedWorld h = snd (subscribe PAYMENT ORDER_CREATED h publishedWorld)"

text \<open>A queue file with one pending event, as \<open>initializeQueue\<close> writes it.\<close>

definition pendingQueue :: DomainTopicQueue where
  "pendingQueue = \<lparr>q_subscriber = PAYMENT, q_topic = ORDER_CREATED, processedEvents = [],
     processingEvents = [\<lparr>pg_eventId = ''e1'', pg_content = ''{x:1}'', pg_tries = 0\<rparr>]\<rparr>"

definition pendingWorld :: World where
  "pendingWorld = writeJSON_queue PAYMENT ORDER_CREATED pendingQueue initialWorld"

text \<open>
  \<open>ORDER\<close> and \<open>PAYMENT\<close> are both registered for \<open>ORDER_CREATED\<close>, and only
  \<open>PAYMENT\<close> has its queue file: the state while \<open>ORDER\<close>'s subscribing closure
  waits for its first \<open>readJSON\<close>.
\<close>

definition racingWorld :: World where
  "racingWorld = pendingWorld\<lparr>topics :=
     [\<lparr>to_topic = ORDER_CREATED, to_subscribers = [ORDER, PAYMENT]\<rparr>]\<rparr>"

text \<open>
  What a delivery for the subscription \<open>(s, t)\<close> may change: the queue file of
  \<open>(s, t)\<close>, the handler log and the clock. Everything else is the same in
  \<open>w'\<close> as in \<open>w\<close>.
\<close>

definition sameExceptQueue :: "Domain \<Rightarrow> Topic \<Rightarrow> World \<Rightarrow> World \<Rightarrow> bool" where
  "sameExceptQueue s t w w' =
     (eventFiles (files w') = eventFiles (files w) \<and>
      errorFile (files w') = errorFile (files w) \<and>
      deadLetterFile (files w') = deadLetterFile (files w) \<and>
      (\<forall>k. k \<noteq> (s, t) \<longrightarrow> queueFiles (files w') k = queueFiles (files w) k) \<and>
      subscribers w' = subscribers w \<and> topics w' = topics w \<and> listeners w' = listeners w \<and>
      inFlight w' = inFlight w)"

text \<open>
  The scenario continued: the queue file of \<open>PAYMENT\<close> for \<open>ORDER_CREATED\<close> has
  been created from the log, and then the event has been delivered to a handler that
  resolves.
\<close>

definition queuedWorld :: World where
  "queuedWorld = snd (initializeQueue PAYMENT ORDER_CREATED publishedWorld)"

definition deliveredWorld :: World where
  "deliveredWorld =
     executeEventHandler alwaysSucceeds PAYMENT ORDER_CREATED ''{x:1}'' 0 ''e1'' queuedWorld"

text \<open>
  Exclusivity of one queue: no event id is in both of its arrays; and of a world: every
  queue file is exclusive.
\<close>

definition exclusive :: "DomainTopicQueue \<Rightarrow> bool" where
  "exclusive q =
     (pg_eventId ` set (processingEvents q) \<inter> pd_eventId ` set (processedEvents q) = {})"

definition allExclusive :: "World \<Rightarrow> bool" where
  "allExclusive w = (\<forall>k q. queueFiles (files w) k = Some q \<longrightarrow> exclusive q)"

text \<open>
  The same for what is on its way to the disk: the queue that a delivery in flight is
  about to write is exclusive. A world is consistent when its files and the writes
  pending in it are.
\<close>

definition pendingExclusive :: "Delivery \<Rightarrow> bool" where
  "pendingExclusive d =
     (case dv_phase d of
        AwaitIncrementWrite q \<Rightarrow> exclusive q
      | AwaitAcknowledgeWrite q \<Rightarrow> exclusive q
      | _ \<Rightarrow> True)"

definition consistent :: "World \<Rightarrow> bool" where
  "consistent w = (allExclusive w \<and> list_all pendingExclusive (inFlight w))"

text \<open>The entries with a given event id in \<open>processingEvents\<close> of a queue file.\<close>

definition pendingEntries :: "string \<Rightarrow> Domain \<times> Topic \<Rightarrow> World \<Rightarrow> ProcessingEvent list option" where
  "pendingEntries e k w =
     map_option (\<lambda>q. filter (\<lambda>v. pg_eventId v = e) (processingEvents q)) (queueFiles (files w) k)"


text \<open>
  A backlog of two events: \<open>e1\<close> and \<open>e2\<close> are published to
  \<open>ORDER_CREATED\<close> before anybody subscribed, and the \<open>PAYMENT\<close> subscriber
  is initialised. Then \<open>PAYMENT\<close> subscribes to the topic with a handler that
  resolves, and the event loop turns until nothing is in flight any more.
\<close>

definition backlogWorld :: World where
  "backlogWorld =
     snd (subscriberInitializer PAYMENT
            (publish ''e2'' ''p0'' ORDER_CREATED ''{x:2}''
               (publish ''e1'' ''p0'' ORDER_CREATED ''{x:1}'' initialWorld)))"

definition backlogDelivered :: World where
  "backlogDelivered = settle (snd (subscribe PAYMENT ORDER_CREATED alwaysSucceeds backlogWorld))"



section \<open>Arrays\<close>

lemma findIndex_None: "findIndex P xs = None \<longleftrightarrow> (\<forall>x \<in> set xs. \<not> P x)"
  by (induction xs) auto

lemma findIndex_Some:
  "findIndex P xs = Some i \<Longrightarrow> i < length xs \<and> P (xs ! i) \<and> (\<forall>j < i. \<not> P (xs ! j))"
proof (induction xs arbitrary: i)
  case Nil
  then show ?case by simp
next
  case (Cons x xs)
  show ?case
  proof (cases "P x")
    case True
    with Cons.prems show ?thesis by simp
  next
    case False
    with Cons.prems obtain k where k: "findIndex P xs = Some k" "i = Suc k"
      by auto
    from Cons.IH [OF k(1)] False k(2) show ?thesis
      by (auto simp: nth_Cons split: nat.splits)
  qed
qed

lemma splice1_valid:
  "index < length xs \<Longrightarrow> splice1 index xs = ([xs ! index], take index xs @ drop (Suc index) xs)"
  by (simp add: splice1_def Cons_nth_drop_Suc [symmetric])

lemma incrementTries_missing:
  "queueFiles (files w) (s, t) = None \<Longrightarrow>
   incrementTries s t e w = (Inl (QueueFileDoesNotExist s t), w)"
  by (simp add: incrementTries_def readJSON_queue_def)

lemma incrementTries_absent:
  "queueFiles (files w) (s, t) = Some q \<Longrightarrow> e \<notin> pg_eventId ` set (processingEvents q) \<Longrightarrow>
   incrementTries s t e w = (Inl TypeError, w)"
proof -
  assume q: "queueFiles (files w) (s, t) = Some q" and "e \<notin> pg_eventId ` set (processingEvents q)"
  then have "findIndex (\<lambda>v. pg_eventId v = e) (processingEvents q) = None"
    by (auto simp: findIndex_None)
  with q show ?thesis
    by (simp add: incrementTries_def readJSON_queue_def)
qed

lemma incrementTries_found:
  "queueFiles (files w) (s, t) = Some q \<Longrightarrow>
   findIndex (\<lambda>v. pg_eventId v = e) (processingEvents q) = Some i \<Longrightarrow>
   incrementTries s t e w =
     (Inr (), writeJSON_queue s t
        (q\<lparr>processingEvents := (processingEvents q)
             [i := (processingEvents q ! i)\<lparr>pg_tries := pg_tries (processingEvents q ! i) + 1\<rparr>]\<rparr>) w)"
  by (simp add: incrementTries_def readJSON_queue_def Let_def)

lemma eventAcknowledged_missing:
  "queueFiles (files w) (s, t) = None \<Longrightarrow>
   eventAcknowledged s t e w = (Inl (QueueFileDoesNotExist s t), w)"
  by (simp add: eventAcknowledged_def readJSON_queue_def)

lemma eventAcknowledged_absent:
  "queueFiles (files w) (s, t) = Some q \<Longrightarrow> e \<notin> pg_eventId ` set (processingEvents q) \<Longrightarrow>
   eventAcknowledged s t e w = (Inl (ProcessedEventNotFound s t e), w)"
proof -
  assume q: "queueFiles (files w) (s, t) = Some q" and "e \<notin> pg_eventId ` set (processingEvents q)"
  then have "findIndex (\<lambda>v. pg_eventId v = e) (processingEvents q) = None"
    by (auto simp: findIndex_None)
  with q show ?thesis
    by (simp add: eventAcknowledged_def readJSON_queue_def)
qed

lemma filter_without_first:
  assumes "findIndex P xs = Some i"
  shows "filter (\<lambda>v. \<not> P v) (take i xs @ drop (Suc i) xs) = filter (\<lambda>v. \<not> P v) xs"
proof -
  from findIndex_Some [OF assms] have i: "i < length xs" and p: "P (xs ! i)" by auto
  have "xs = take i xs @ xs ! i # drop (Suc i) xs"
    using i by (simp add: id_take_nth_drop [symmetric])
  then have "filter (\<lambda>v. \<not> P v) xs = filter (\<lambda>v. \<not> P v) (take i xs @ xs ! i # drop (Suc i) xs)"
    by simp
  also have "\<dots> = filter (\<lambda>v. \<not> P v) (take i xs @ drop (Suc i) xs)"
    using p by simp
  finally show ?thesis by simp
qed

lemma eventAcknowledged_found:
  assumes "queueFiles (files w) (s, t) = Some q"
    and "findIndex (\<lambda>v. pg_eventId v = e) (processingEvents q) = Some i"
  shows "eventAcknowledged s t e w =
     (Inr (), writeJSON_queue s t
        (q\<lparr>processedEvents := processedEvents q @
              [\<lparr>pd_eventId = e, pd_tries = pg_tries (processingEvents q ! i), pd_processedAt = clock w\<rparr>],
            processingEvents := filter (\<lambda>v. pg_eventId v \<noteq> e) (processingEvents q)\<rparr>) w)"
proof -
  from findIndex_Some [OF assms(2)] have i: "i < length (processingEvents q)" by simp
  show ?thesis
    using assms filter_without_first [OF assms(2)]
    by (simp add: eventAcknowledged_def readJSON_queue_def splice1_valid [OF i] Let_def)
qed

section \<open>Failing queue updates\<close>

lemma tryProcessing_incrementTries_fails:
  assumes "incrementTries s t e (if isRetry then setTimeout5000 w else w) = (Inl err, w1)"
  shows "tryProcessing s t e c h isRetry w = (Inl err, w1)"
  using assms by (cases isRetry) (simp_all add: tryProcessing_def attemptBody_def)

lemma files_setTimeout5000 [simp]: "files (setTimeout5000 w) = files w"
  by (simp add: setTimeout5000_def)

lemma handlerCalls_setTimeout5000 [simp]: "handlerCalls (setTimeout5000 w) = handlerCalls w"
  by (simp add: setTimeout5000_def)

lemma pendingWorld_queue:
  "queueFiles (files pendingWorld) (PAYMENT, ORDER_CREATED) = Some pendingQueue"
  by (simp add: pendingWorld_def writeJSON_queue_def)

lemma pendingWorld_other_queue:
  "queueFiles (files pendingWorld) (ORDER, ORDER_CREATED) = None"
  by (simp add: pendingWorld_def writeJSON_queue_def initialWorld_def emptyFiles_def)

text \<open>
  What \<open>incrementTries\<close> raises, in every world: the \<open>Error\<close> whose message
  says that the file does not exist when the queue file of the subscription is missing,
  and the \<open>TypeError\<close> of reading \<open>tries\<close> of \<open>undefined\<close> when the event
  id is not in \<open>processingEvents\<close>. In both cases the error leaves the operation:
  it is the outcome of \<open>incrementTries\<close>, and it ends the delivery attempt,
  \<open>tryProcessing\<close> rejecting with it without having called the handler.
\<close>

theorem incrementTries_raises:
  "(queueFiles (files w) (s, t) = None \<longrightarrow>
      incrementTries s t e w = (Inl (QueueFileDoesNotExist s t), w) \<and>
      fst (tryProcessing s t e c h isRetry w) = Inl (QueueFileDoesNotExist s t) \<and>
      handlerCalls (snd (tryProcessing s t e c h isRetry w)) = handlerCalls w) \<and>
   (queueFiles (files w) (s, t) = Some q \<and> e \<notin> pg_eventId ` set (processingEvents q) \<longrightarrow>
      incrementTries s t e w = (Inl TypeError, w) \<and>
      fst (tryProcessing s t e c h isRetry w) = Inl TypeError \<and>
      handlerCalls (snd (tryProcessing s t e c h isRetry w)) = handlerCalls w)"
proof (intro conjI impI)
  assume missing: "queueFiles (files w) (s, t) = None"
  show "incrementTries s t e w = (Inl (QueueFileDoesNotExist s t), w)"
    by (rule incrementTries_missing [OF missing])
  let ?w = "if isRetry then setTimeout5000 w else w"
  have "queueFiles (files ?w) (s, t) = None"
    using missing by simp
  then have "incrementTries s t e ?w = (Inl (QueueFileDoesNotExist s t), ?w)"
    by (rule incrementTries_missing)
  then have tp: "tryProcessing s t e c h isRetry w = (Inl (QueueFileDoesNotExist s t), ?w)"
    by (rule tryProcessing_incrementTries_fails)
  show "fst (tryProcessing s t e c h isRetry w) = Inl (QueueFileDoesNotExist s t)"
    by (simp add: tp)
  show "handlerCalls (snd (tryProcessing s t e c h isRetry w)) = handlerCalls w"
    by (simp add: tp)
next
  assume absent: "queueFiles (files w) (s, t) = Some q \<and> e \<notin> pg_eventId ` set (processingEvents q)"
  then show "incrementTries s t e w = (Inl TypeError, w)"
    by (simp add: incrementTries_absent)
  let ?w = "if isRetry then setTimeout5000 w else w"
  have "queueFiles (files ?w) (s, t) = Some q"
    using absent by simp
  then have "incrementTries s t e ?w = (Inl TypeError, ?w)"
    using absent by (simp add: incrementTries_absent)
  then have tp: "tryProcessing s t e c h isRetry w = (Inl TypeError, ?w)"
    by (rule tryProcessing_incrementTries_fails)
  show "fst (tryProcessing s t e c h isRetry w) = Inl TypeError"
    by (simp add: tp)
  show "handlerCalls (snd (tryProcessing s t e c h isRetry w)) = handlerCalls w"
    by (simp add: tp)
qed

theorem incrementTries_raises_witness:
  "queueFiles (files pendingWorld) (ORDER, ORDER_CREATED) = None \<and>
   incrementTries ORDER ORDER_CREATED ''e1'' pendingWorld =
     (Inl (QueueFileDoesNotExist ORDER ORDER_CREATED), pendingWorld) \<and>
   fst (tryProcessing ORDER ORDER_CREATED ''e1'' ''{x:1}'' alwaysSucceeds True pendingWorld) =
     Inl (QueueFileDoesNotExist ORDER ORDER_CREATED) \<and>
   queueFiles (files pendingWorld) (PAYMENT, ORDER_CREATED) = Some pendingQueue \<and>
   ''e2'' \<notin> pg_eventId ` set (processingEvents pendingQueue) \<and>
   incrementTries PAYMENT ORDER_CREATED ''e2'' pendingWorld = (Inl TypeError, pendingWorld) \<and>
   fst (tryProcessing PAYMENT ORDER_CREATED ''e2'' ''{x:1}'' alwaysSucceeds True pendingWorld) =
     Inl TypeError"
proof -
  have absent: "''e2'' \<notin> pg_eventId ` set (processingEvents pendingQueue)"
    by (simp add: pendingQueue_def)
  show ?thesis
    using incrementTries_raises [of pendingWorld ORDER ORDER_CREATED "''e1''" "''{x:1}''"
        alwaysSucceeds True pendingQueue]
      incrementTries_raises [of pendingWorld PAYMENT ORDER_CREATED "''e2''" "''{x:1}''"
        alwaysSucceeds True pendingQueue]
      pendingWorld_queue pendingWorld_other_queue absent
    by simp
qed

text \<open>
  C6 on the scenario. For a subscription whose queue file is missing,
  \<open>incrementTries\<close> raises the error that says so, as C6 describes. For an event
  id that is not in \<open>processingEvents\<close> of an existing queue file it raises no
  error of its own: \<open>find\<close> returns \<open>undefined\<close>, the non-null assertion
  \<open>!\<close> lets the access through, and \<open>undefined.tries++\<close> raises a
  \<open>TypeError\<close>. C6 requires an error that says that the event was not found, and
  \<open>eventAcknowledged\<close>, called for the same subscription and id, has the check
  and raises such an error (\<open>processed event cannot be found in
  processingEvents\<close>); \<open>incrementTries\<close> lacks it. Whichever error it is, it
  ends the delivery attempt: \<open>tryProcessing\<close> rejects with it and the handler
  has not been called.
\<close>

theorem incrementTries_absent_id_is_a_TypeError:
  "incrementTries ORDER ORDER_CREATED ''e1'' pendingWorld =
     (Inl (QueueFileDoesNotExist ORDER ORDER_CREATED), pendingWorld) \<and>
   incrementTries PAYMENT ORDER_CREATED ''e2'' pendingWorld = (Inl TypeError, pendingWorld) \<and>
   eventAcknowledged PAYMENT ORDER_CREATED ''e2'' pendingWorld =
     (Inl (ProcessedEventNotFound PAYMENT ORDER_CREATED ''e2''), pendingWorld) \<and>
   fst (tryProcessing PAYMENT ORDER_CREATED ''e2'' ''{x:2}'' alwaysSucceeds True pendingWorld) =
     Inl TypeError \<and>
   handlerCalls (snd (tryProcessing PAYMENT ORDER_CREATED ''e2'' ''{x:2}'' alwaysSucceeds True
     pendingWorld)) = []"
proof -
  have absent: "''e2'' \<notin> pg_eventId ` set (processingEvents pendingQueue)"
    by (simp add: pendingQueue_def)
  have "queueFiles (files (setTimeout5000 pendingWorld)) (PAYMENT, ORDER_CREATED) = Some pendingQueue"
    by (simp add: pendingWorld_queue)
  from incrementTries_absent [OF this absent]
  have "incrementTries PAYMENT ORDER_CREATED ''e2'' (if True then setTimeout5000 pendingWorld
      else pendingWorld) = (Inl TypeError, setTimeout5000 pendingWorld)"
    by simp
  from tryProcessing_incrementTries_fails [OF this]
  have tp: "tryProcessing PAYMENT ORDER_CREATED ''e2'' ''{x:2}'' alwaysSucceeds True pendingWorld =
      (Inl TypeError, setTimeout5000 pendingWorld)" .
  have "handlerCalls pendingWorld = []"
    by (simp add: pendingWorld_def initialWorld_def writeJSON_queue_def)
  with tp have "fst (tryProcessing PAYMENT ORDER_CREATED ''e2'' ''{x:2}'' alwaysSucceeds True
      pendingWorld) = Inl TypeError"
    and "handlerCalls (snd (tryProcessing PAYMENT ORDER_CREATED ''e2'' ''{x:2}'' alwaysSucceeds True
      pendingWorld)) = []"
    by simp_all
  with incrementTries_missing [OF pendingWorld_other_queue, of "''e1''"]
    incrementTries_absent [OF pendingWorld_queue absent]
    eventAcknowledged_absent [OF pendingWorld_queue absent]
  show ?thesis by simp
qed

text \<open>
  C9. When \<open>incrementTries\<close> or \<open>eventAcknowledged\<close> is called for a subscription
  whose queue file is missing, or with an event id that is not in
  \<open>processingEvents\<close>, the call fails and has written nothing: the world after the
  call is the world before it.
\<close>

theorem failed_update_writes_nothing:
  assumes "queueFiles (files w) (s, t) = None \<or>
           (\<exists>q. queueFiles (files w) (s, t) = Some q \<and>
                e \<notin> pg_eventId ` set (processingEvents q))"
  shows "isl (fst (incrementTries s t e w)) \<and> snd (incrementTries s t e w) = w \<and>
         isl (fst (eventAcknowledged s t e w)) \<and> snd (eventAcknowledged s t e w) = w"
  using assms
  by (auto simp: incrementTries_missing incrementTries_absent
      eventAcknowledged_missing eventAcknowledged_absent)

theorem failed_update_writes_nothing_witness:
  "snd (incrementTries ORDER ORDER_CREATED ''e1'' pendingWorld) = pendingWorld \<and>
   snd (eventAcknowledged ORDER ORDER_CREATED ''e1'' pendingWorld) = pendingWorld \<and>
   isl (fst (incrementTries PAYMENT ORDER_CREATED ''e2'' pendingWorld)) \<and>
   snd (incrementTries PAYMENT ORDER_CREATED ''e2'' pendingWorld) = pendingWorld \<and>
   isl (fst (eventAcknowledged PAYMENT ORDER_CREATED ''e2'' pendingWorld)) \<and>
   snd (eventAcknowledged PAYMENT ORDER_CREATED ''e2'' pendingWorld) = pendingWorld"
proof -
  have absent: "''e2'' \<notin> pg_eventId ` set (processingEvents pendingQueue)"
    by (simp add: pendingQueue_def)
  show ?thesis
    using failed_update_writes_nothing [of pendingWorld ORDER ORDER_CREATED "''e1''"]
      failed_update_writes_nothing [of pendingWorld PAYMENT ORDER_CREATED "''e2''"]
      pendingWorld_queue pendingWorld_other_queue absent
    by simp
qed

section \<open>Entries that have used up their attempts\<close>

lemma loop_exhausted:
  "5 \<le> triesCount \<Longrightarrow> executeEventHandler_loop h s t c tries e acked triesCount w = w"
  by (simp add: executeEventHandler_loop.simps)

lemma executeEventHandler_exhausted:
  "5 \<le> tries \<Longrightarrow> executeEventHandler h s t c tries e w = w"
  by (simp add: executeEventHandler_def loop_exhausted)

lemma startDelivery_exhausted:
  "5 \<le> tries \<Longrightarrow> dv_phase (startDelivery h s t c tries e w) = Finished"
  by (simp add: startDelivery_def nextAttempt_def)


text \<open>
  The replay starts one delivery for every entry, each as it is started in the world in
  which the replay began; for a queue whose entries have all used up their attempts,
  every delivery it starts has finished.
\<close>

lemma startDelivery_clock:
  "clock w' = clock w \<Longrightarrow> startDelivery h s t c tries e w' = startDelivery h s t c tries e w"
  by (simp add: startDelivery_def nextAttempt_def Let_def)

lemma replay_starts_together:
  "replay h s t vs w =
     w\<lparr>inFlight := inFlight w @
        map (\<lambda>v. startDelivery h s t (pg_content v) (pg_tries v) (pg_eventId v) w) vs\<rparr>"
proof (induction vs arbitrary: w)
  case Nil
  show ?case by simp
next
  case (Cons v vs)
  let ?w = "startInFlight h s t (pg_content v) (pg_tries v) (pg_eventId v) w"
  have "clock ?w = clock w"
    by (simp add: startInFlight_def)
  then have "startDelivery h s t c tries e ?w = startDelivery h s t c tries e w" for c tries e
    by (rule startDelivery_clock)
  with Cons.IH [of ?w] show ?case
    by (simp add: startInFlight_def)
qed

lemma replay_exhausted:
  "list_all (\<lambda>v. 5 \<le> pg_tries v) vs \<Longrightarrow>
   list_all (\<lambda>d. dv_phase d = Finished) (drop (length (inFlight w)) (inFlight (replay h s t vs w)))"
  by (simp add: replay_starts_together list_all_iff startDelivery_exhausted)

section \<open>Initialising a subscriber queue\<close>

text \<open>
  C2. When no queue file exists for \<open>(s, t)\<close>, \<open>initializeQueue\<close> writes one:
  it is the queue the file then holds, its \<open>processedEvents\<close> are empty, and its
  \<open>processingEvents\<close> are the events of the topic's log (none when the log file
  does not exist), in the order of the log, each with \<open>tries = 0\<close>. When a queue
  file exists, it is returned as it is and nothing is written.
\<close>

theorem initializeQueue_backfills:
  "(queueFiles (files w) (s, t) = None \<longrightarrow>
      (\<exists>q. initializeQueue s t w = (q, writeJSON_queue s t q w) \<and>
           queueFiles (files (snd (initializeQueue s t w))) (s, t) = Some q \<and>
           q_subscriber q = s \<and> q_topic q = t \<and>
           processedEvents q = [] \<and>
           processingEvents q =
             map (\<lambda>v. \<lparr>pg_eventId = le_eventId v, pg_content = le_content v, pg_tries = 0\<rparr>)
               (case eventFiles (files w) t of None \<Rightarrow> [] | Some l \<Rightarrow> el_events l))) \<and>
   (queueFiles (files w) (s, t) = Some q0 \<longrightarrow> initializeQueue s t w = (q0, w))"
  by (auto simp: initializeQueue_def readJSON_queue_def readJSON_log_def writeJSON_queue_def Let_def
      split: option.splits)

section \<open>Fan-out\<close>

lemma pushToQueue_queueFiles:
  "queueFiles (files (pushToQueue e t c a w)) k =
     (if k = (a, t)
      then map_option (\<lambda>q. q\<lparr>processingEvents := processingEvents q @
             [\<lparr>pg_eventId = e, pg_content = c, pg_tries = 0\<rparr>]\<rparr>) (queueFiles (files w) k)
      else queueFiles (files w) k)"
  by (simp add: pushToQueue_def readJSON_queue_def writeJSON_queue_def split: option.splits)

lemma fold_pushToQueue_queueFiles:
  "queueFiles (files (fold (pushToQueue e t c) subs w)) (s, t') =
     (if t' = t
      then map_option (\<lambda>q. q\<lparr>processingEvents := processingEvents q @
             replicate (count_list subs s) \<lparr>pg_eventId = e, pg_content = c, pg_tries = 0\<rparr>\<rparr>)
             (queueFiles (files w) (s, t'))
      else queueFiles (files w) (s, t'))"
proof (induction subs arbitrary: w)
  case Nil
  show ?case by (simp add: option.map_ident)
next
  case (Cons a subs)
  show ?case
    by (simp add: Cons.IH pushToQueue_queueFiles option.map_comp comp_def
        replicate_app_Cons_same)
qed

text \<open>
  C10. Let \<open>s\<close> be registered for topic \<open>t\<close> while its queue file does not exist.
  The fan-out of an event to \<open>t\<close> leaves that file non-existent (nothing is written
  for \<open>s\<close>), and every queue file of the topic that does exist receives the event:
  once per occurrence of its subscriber in the topic's list, which the registry keeps
  free of repetitions. \<open>persistEventsInSubscriberQueues\<close> has no failing outcome.
\<close>

theorem fanOut_skips_missing_queue:
  assumes "find (\<lambda>v. to_topic v = t) (topics w) = Some topicObj"
    and "s \<in> set (to_subscribers topicObj)"
    and "queueFiles (files w) (s, t) = None"
  shows "queueFiles (files (persistEventsInSubscriberQueues e t c w)) (s, t) = None \<and>
         (\<forall>s' q. queueFiles (files w) (s', t) = Some q \<longrightarrow>
            queueFiles (files (persistEventsInSubscriberQueues e t c w)) (s', t) =
              Some (q\<lparr>processingEvents := processingEvents q @
                replicate (count_list (to_subscribers topicObj) s')
                  \<lparr>pg_eventId = e, pg_content = c, pg_tries = 0\<rparr>\<rparr>))"
  using assms
  by (simp add: persistEventsInSubscriberQueues_def fold_pushToQueue_queueFiles)

lemma racingWorld_files: "files racingWorld = files pendingWorld"
  by (simp add: racingWorld_def)

theorem fanOut_skips_missing_queue_witness:
  "find (\<lambda>v. to_topic v = ORDER_CREATED) (topics racingWorld) =
     Some \<lparr>to_topic = ORDER_CREATED, to_subscribers = [ORDER, PAYMENT]\<rparr> \<and>
   ORDER \<in> set [ORDER, PAYMENT] \<and>
   queueFiles (files racingWorld) (ORDER, ORDER_CREATED) = None \<and>
   queueFiles (files (persistEventsInSubscriberQueues ''e2'' ORDER_CREATED ''{x:2}'' racingWorld))
     (ORDER, ORDER_CREATED) = None \<and>
   queueFiles (files (persistEventsInSubscriberQueues ''e2'' ORDER_CREATED ''{x:2}'' racingWorld))
     (PAYMENT, ORDER_CREATED) =
     Some (pendingQueue\<lparr>processingEvents :=
       [\<lparr>pg_eventId = ''e1'', pg_content = ''{x:1}'', pg_tries = 0\<rparr>,
        \<lparr>pg_eventId = ''e2'', pg_content = ''{x:2}'', pg_tries = 0\<rparr>]\<rparr>)"
proof -
  let ?obj = "\<lparr>to_topic = ORDER_CREATED, to_subscribers = [ORDER, PAYMENT]\<rparr>"
  have registry: "find (\<lambda>v. to_topic v = ORDER_CREATED) (topics racingWorld) = Some ?obj"
    by (simp add: racingWorld_def)
  have bound: "ORDER \<in> set (to_subscribers ?obj)"
    by simp
  have missing: "queueFiles (files racingWorld) (ORDER, ORDER_CREATED) = None"
    by (simp add: racingWorld_files pendingWorld_other_queue)
  have present: "queueFiles (files racingWorld) (PAYMENT, ORDER_CREATED) = Some pendingQueue"
    by (simp add: racingWorld_files pendingWorld_queue)
  note fan = fanOut_skips_missing_queue [OF registry bound missing, of "''e2''" "''{x:2}''"]
  from fan have skipped:
    "queueFiles (files (persistEventsInSubscriberQueues ''e2'' ORDER_CREATED ''{x:2}'' racingWorld))
       (ORDER, ORDER_CREATED) = None"
    by simp
  from fan present have
    "queueFiles (files (persistEventsInSubscriberQueues ''e2'' ORDER_CREATED ''{x:2}'' racingWorld))
       (PAYMENT, ORDER_CREATED) =
     Some (pendingQueue\<lparr>processingEvents := processingEvents pendingQueue @
        replicate (count_list (to_subscribers ?obj) PAYMENT)
          \<lparr>pg_eventId = ''e2'', pg_content = ''{x:2}'', pg_tries = 0\<rparr>\<rparr>)"
    by blast
  then have pushed:
    "queueFiles (files (persistEventsInSubscriberQueues ''e2'' ORDER_CREATED ''{x:2}'' racingWorld))
       (PAYMENT, ORDER_CREATED) =
     Some (pendingQueue\<lparr>processingEvents :=
       [\<lparr>pg_eventId = ''e1'', pg_content = ''{x:1}'', pg_tries = 0\<rparr>,
        \<lparr>pg_eventId = ''e2'', pg_content = ''{x:2}'', pg_tries = 0\<rparr>]\<rparr>)"
    by (simp add: pendingQueue_def)
  from registry missing skipped pushed show ?thesis
    by simp
qed

text \<open>
  The queue of C2 on the scenario: \<open>PAYMENT\<close> subscribes after one event was
  published, and finds the queue that \<open>initializeQueue\<close> creates; a second
  initialisation loads it.
\<close>

lemma publishedWorld_log:
  "eventFiles (files publishedWorld) ORDER_CREATED =
     Some \<lparr>el_topic = ORDER_CREATED, el_events =
       [\<lparr>le_parentId = ''p0'', le_eventId = ''e1'', le_content = ''{x:1}''\<rparr>]\<rparr>"
  by (simp add: publishedWorld_def subscriberInitializer_def publish_def persistEvent_def
      persistEventsInSubscriberQueues_def readJSON_log_def writeJSON_log_def initialWorld_def
      emptyFiles_def Let_def)

lemma publishedWorld_queue:
  "queueFiles (files publishedWorld) k = None"
  by (simp add: publishedWorld_def subscriberInitializer_def publish_def persistEvent_def
      persistEventsInSubscriberQueues_def readJSON_log_def writeJSON_log_def initialWorld_def
      emptyFiles_def Let_def)

theorem initializeQueue_backfills_witness:
  "queueFiles (files publishedWorld) (PAYMENT, ORDER_CREATED) = None \<and>
   fst (initializeQueue PAYMENT ORDER_CREATED publishedWorld) = pendingQueue \<and>
   queueFiles (files (snd (initializeQueue PAYMENT ORDER_CREATED publishedWorld)))
     (PAYMENT, ORDER_CREATED) = Some pendingQueue \<and>
   queueFiles (files pendingWorld) (PAYMENT, ORDER_CREATED) = Some pendingQueue \<and>
   initializeQueue PAYMENT ORDER_CREATED pendingWorld = (pendingQueue, pendingWorld)"
proof -
  note absent = publishedWorld_queue [of "(PAYMENT, ORDER_CREATED)"]
  from initializeQueue_backfills [of publishedWorld PAYMENT ORDER_CREATED pendingQueue] absent
  obtain q where q: "initializeQueue PAYMENT ORDER_CREATED publishedWorld =
        (q, writeJSON_queue PAYMENT ORDER_CREATED q publishedWorld)"
      "queueFiles (files (snd (initializeQueue PAYMENT ORDER_CREATED publishedWorld)))
         (PAYMENT, ORDER_CREATED) = Some q"
      "q_subscriber q = PAYMENT" "q_topic q = ORDER_CREATED" "processedEvents q = []"
      "processingEvents q =
         map (\<lambda>v. \<lparr>pg_eventId = le_eventId v, pg_content = le_content v, pg_tries = 0\<rparr>)
           (case eventFiles (files publishedWorld) ORDER_CREATED of
              None \<Rightarrow> [] | Some l \<Rightarrow> el_events l)"
    by blast
  from q(3-6) have "q = pendingQueue"
    by (cases q) (simp add: pendingQueue_def publishedWorld_log)
  with q(1,2) have created:
    "fst (initializeQueue PAYMENT ORDER_CREATED publishedWorld) = pendingQueue"
    "queueFiles (files (snd (initializeQueue PAYMENT ORDER_CREATED publishedWorld)))
       (PAYMENT, ORDER_CREATED) = Some pendingQueue"
    by simp_all
  from initializeQueue_backfills [of pendingWorld PAYMENT ORDER_CREATED pendingQueue]
    pendingWorld_queue
  have loaded: "initializeQueue PAYMENT ORDER_CREATED pendingWorld = (pendingQueue, pendingWorld)"
    by simp
  from absent created pendingWorld_queue loaded show ?thesis
    by simp
qed

section \<open>One delivery attempt\<close>

lemma findIndex_cong_ids:
  "map f ys = map f xs \<Longrightarrow> findIndex (\<lambda>v. f v = e) ys = findIndex (\<lambda>v. f v = e) xs"
proof (induction xs arbitrary: ys)
  case Nil
  then show ?case by simp
next
  case (Cons x xs)
  then obtain y ys' where ys: "ys = y # ys'" "f y = f x" "map f ys' = map f xs"
    by (cases ys) auto
  with Cons.IH [of ys'] show ?case by simp
qed

lemma ids_after_bump:
  "map pg_eventId (xs[i := (xs ! i)\<lparr>pg_tries := n\<rparr>]) = map pg_eventId xs"
proof (cases "i < length xs")
  case True
  then have "(map pg_eventId xs)[i := pg_eventId (xs ! i)] = map pg_eventId xs"
    by (simp add: list_update_same_conv)
  then show ?thesis by (simp add: map_update)
next
  case False
  then have "length xs \<le> i" by simp
  then have "xs[i := (xs ! i)\<lparr>pg_tries := n\<rparr>] = xs" by (rule list_update_beyond)
  then show ?thesis by (rule arg_cong)
qed

lemma findIndex_after_bump:
  "findIndex (\<lambda>v. pg_eventId v = e) (xs[i := (xs ! i)\<lparr>pg_tries := n\<rparr>]) =
   findIndex (\<lambda>v. pg_eventId v = e) xs"
  by (rule findIndex_cong_ids) (rule ids_after_bump)

lemma filter_after_bump:
  assumes "findIndex (\<lambda>v. pg_eventId v = e) xs = Some i"
  shows "filter (\<lambda>v. pg_eventId v \<noteq> e) (xs[i := (xs ! i)\<lparr>pg_tries := n\<rparr>]) =
         filter (\<lambda>v. pg_eventId v \<noteq> e) xs"
proof -
  from findIndex_Some [OF assms] have i: "i < length xs" and id: "pg_eventId (xs ! i) = e"
    by auto
  have "xs[i := (xs ! i)\<lparr>pg_tries := n\<rparr>] = take i xs @ (xs ! i)\<lparr>pg_tries := n\<rparr> # drop (Suc i) xs"
    using i by (rule upd_conv_take_nth_drop)
  moreover have "xs = take i xs @ xs ! i # drop (Suc i) xs"
    using i by (rule id_take_nth_drop)
  ultimately show ?thesis
  proof -
    assume upd: "xs[i := (xs ! i)\<lparr>pg_tries := n\<rparr>] =
        take i xs @ (xs ! i)\<lparr>pg_tries := n\<rparr> # drop (Suc i) xs"
      and same: "xs = take i xs @ xs ! i # drop (Suc i) xs"
    have "filter (\<lambda>v. pg_eventId v \<noteq> e) (xs[i := (xs ! i)\<lparr>pg_tries := n\<rparr>]) =
        filter (\<lambda>v. pg_eventId v \<noteq> e) (take i xs) @ filter (\<lambda>v. pg_eventId v \<noteq> e) (drop (Suc i) xs)"
      using id by (simp add: upd)
    also have "\<dots> = filter (\<lambda>v. pg_eventId v \<noteq> e) (take i xs @ xs ! i # drop (Suc i) xs)"
      using id by simp
    also have "\<dots> = filter (\<lambda>v. pg_eventId v \<noteq> e) xs"
      using same by simp
    finally show ?thesis .
  qed
qed

lemma readJSON_writeJSON_queue [simp]:
  "queueFiles (files (writeJSON_queue s t q w)) (s, t) = Some q"
  by (simp add: writeJSON_queue_def)

lemma handlerCalls_writeJSON_queue [simp]:
  "handlerCalls (writeJSON_queue s t q w) = handlerCalls w"
  by (simp add: writeJSON_queue_def)

lemma clock_writeJSON_queue [simp]: "clock (writeJSON_queue s t q w) = clock w"
  by (simp add: writeJSON_queue_def)

lemma clock_setTimeout5000 [simp]: "clock (setTimeout5000 w) = clock w + 5000"
  by (simp add: setTimeout5000_def)

lemma attempt_fails:
  assumes q: "queueFiles (files w) (s, t) = Some q"
    and i: "findIndex (\<lambda>v. pg_eventId v = e) (processingEvents q) = Some i"
    and h: "h (handlerCalls w) e c = Inl err"
  shows "\<exists>w'. tryProcessing s t e c h True w = (Inl err, w') \<and>
           queueFiles (files w') (s, t) = Some (q\<lparr>processingEvents := (processingEvents q)
             [i := (processingEvents q ! i)\<lparr>pg_tries := pg_tries (processingEvents q ! i) + 1\<rparr>]\<rparr>) \<and>
           handlerCalls w' = handlerCalls w @
             [\<lparr>hc_subscriber = s, hc_topic = t, hc_parentId = e, hc_content = c, hc_isRetry = True,
               hc_at = clock w + 5000, hc_files = files w'\<rparr>] \<and>
           clock w' = clock w + 5000"
proof -
  let ?w0 = "setTimeout5000 w"
  let ?pes = "processingEvents q"
  let ?q1 = "q\<lparr>processingEvents := ?pes[i := (?pes ! i)\<lparr>pg_tries := pg_tries (?pes ! i) + 1\<rparr>]\<rparr>"
  let ?w1 = "writeJSON_queue s t ?q1 ?w0"
  let ?call = "\<lparr>hc_subscriber = s, hc_topic = t, hc_parentId = e, hc_content = c, hc_isRetry = True,
               hc_at = clock ?w1, hc_files = files ?w1\<rparr>"
  let ?w2 = "?w1\<lparr>handlerCalls := handlerCalls ?w1 @ [?call]\<rparr>"
  have q0: "queueFiles (files ?w0) (s, t) = Some q" using q by simp
  have inc: "incrementTries s t e ?w0 = (Inr (), ?w1)"
    by (rule incrementTries_found [OF q0 i])
  have tp: "tryProcessing s t e c h True w = (Inl err, ?w2)"
    using h by (simp add: tryProcessing_def attemptBody_def inc Let_def)
  have "queueFiles (files ?w2) (s, t) = Some ?q1" by simp
  moreover have "handlerCalls ?w2 = handlerCalls w @
      [\<lparr>hc_subscriber = s, hc_topic = t, hc_parentId = e, hc_content = c, hc_isRetry = True,
        hc_at = clock w + 5000, hc_files = files ?w2\<rparr>]"
    by simp
  moreover have "clock ?w2 = clock w + 5000" by simp
  ultimately show ?thesis using tp by blast
qed

lemma attempt_succeeds:
  assumes q: "queueFiles (files w) (s, t) = Some q"
    and i: "findIndex (\<lambda>v. pg_eventId v = e) (processingEvents q) = Some i"
    and h: "h (handlerCalls w) e c = Inr ()"
  shows "\<exists>w'. tryProcessing s t e c h True w = (Inr (), w') \<and>
           queueFiles (files w') (s, t) = Some (q\<lparr>
             processedEvents := processedEvents q @
               [\<lparr>pd_eventId = e, pd_tries = pg_tries (processingEvents q ! i) + 1,
                 pd_processedAt = clock w + 5000\<rparr>],
             processingEvents := filter (\<lambda>v. pg_eventId v \<noteq> e) (processingEvents q)\<rparr>) \<and>
           handlerCalls w' = handlerCalls w @
             [\<lparr>hc_subscriber = s, hc_topic = t, hc_parentId = e, hc_content = c, hc_isRetry = True,
               hc_at = clock w + 5000,
               hc_files = (files w)\<lparr>queueFiles := (queueFiles (files w))((s, t) \<mapsto>
                 q\<lparr>processingEvents := (processingEvents q)
                   [i := (processingEvents q ! i)\<lparr>pg_tries := pg_tries (processingEvents q ! i) + 1\<rparr>]\<rparr>)\<rparr>\<rparr>] \<and>
           clock w' = clock w + 5000"
proof -
  let ?w0 = "setTimeout5000 w"
  let ?pes = "processingEvents q"
  let ?q1 = "q\<lparr>processingEvents := ?pes[i := (?pes ! i)\<lparr>pg_tries := pg_tries (?pes ! i) + 1\<rparr>]\<rparr>"
  let ?w1 = "writeJSON_queue s t ?q1 ?w0"
  let ?call = "\<lparr>hc_subscriber = s, hc_topic = t, hc_parentId = e, hc_content = c, hc_isRetry = True,
               hc_at = clock ?w1, hc_files = files ?w1\<rparr>"
  let ?w2 = "?w1\<lparr>handlerCalls := handlerCalls ?w1 @ [?call]\<rparr>"
  let ?q3 = "?q1\<lparr>processedEvents := processedEvents ?q1 @
        [\<lparr>pd_eventId = e, pd_tries = pg_tries (processingEvents ?q1 ! i), pd_processedAt = clock ?w2\<rparr>],
      processingEvents := filter (\<lambda>v. pg_eventId v \<noteq> e) (processingEvents ?q1)\<rparr>"
  let ?w3 = "writeJSON_queue s t ?q3 ?w2"
  from findIndex_Some [OF i] have len: "i < length ?pes" by simp
  have q0: "queueFiles (files ?w0) (s, t) = Some q" using q by simp
  have inc: "incrementTries s t e ?w0 = (Inr (), ?w1)"
    by (rule incrementTries_found [OF q0 i])
  have q2: "queueFiles (files ?w2) (s, t) = Some ?q1"
    by simp
  have i2: "findIndex (\<lambda>v. pg_eventId v = e) (processingEvents ?q1) = Some i"
    using i by (simp add: findIndex_after_bump)
  have ack: "eventAcknowledged s t e ?w2 = (Inr (), ?w3)"
    by (rule eventAcknowledged_found [OF q2 i2])
  have "tryProcessing s t e c h True w = eventAcknowledged s t e ?w2"
    using h by (simp add: tryProcessing_def attemptBody_def inc Let_def)
  also note ack
  finally have tp: "tryProcessing s t e c h True w = (Inr (), ?w3)" .
  have "queueFiles (files ?w3) (s, t) = Some (q\<lparr>
             processedEvents := processedEvents q @
               [\<lparr>pd_eventId = e, pd_tries = pg_tries (processingEvents q ! i) + 1,
                 pd_processedAt = clock w + 5000\<rparr>],
             processingEvents := filter (\<lambda>v. pg_eventId v \<noteq> e) (processingEvents q)\<rparr>)"
    using len by (simp add: filter_after_bump [OF i])
  moreover have "handlerCalls ?w3 = handlerCalls w @
             [\<lparr>hc_subscriber = s, hc_topic = t, hc_parentId = e, hc_content = c, hc_isRetry = True,
               hc_at = clock w + 5000,
               hc_files = (files w)\<lparr>queueFiles := (queueFiles (files w))((s, t) \<mapsto> ?q1)\<rparr>\<rparr>]"
    by (simp add: writeJSON_queue_def setTimeout5000_def)
  moreover have "clock ?w3 = clock w + 5000" by simp
  ultimately show ?thesis using tp by blast
qed

section \<open>The retry loop\<close>

lemma loop_acked: "executeEventHandler_loop h s t c tries e True k w = w"
  by (simp add: executeEventHandler_loop.simps)

lemma loop_step_fails:
  assumes "k < 5" and "tryProcessing s t e c h (Suc k \<noteq> tries) w = (Inl err, w')"
  shows "executeEventHandler_loop h s t c tries e False k w =
         executeEventHandler_loop h s t c tries e False (Suc k) w'"
  using assms by (subst executeEventHandler_loop.simps) simp

lemma loop_step_succeeds:
  assumes "k < 5" and "tryProcessing s t e c h (Suc k \<noteq> tries) w = (Inr u, w')"
  shows "executeEventHandler_loop h s t c tries e False k w = w'"
  using assms by (subst executeEventHandler_loop.simps) (simp add: loop_acked)

lemma bump_zero: "xs[i := (xs ! i)\<lparr>pg_tries := pg_tries (xs ! i) + 0\<rparr>] = xs"
  by simp

lemma loop_all_fail:
  assumes always: "\<forall>hist. isl (h hist e c)"
  shows "queueFiles (files w) (s, t) = Some q \<Longrightarrow>
    findIndex (\<lambda>v. pg_eventId v = e) (processingEvents q) = Some i \<Longrightarrow>
    tries \<le> k \<Longrightarrow> k + n = 5 \<Longrightarrow>
    queueFiles (files (executeEventHandler_loop h s t c tries e False k w)) (s, t) =
      Some (q\<lparr>processingEvents := (processingEvents q)
        [i := (processingEvents q ! i)\<lparr>pg_tries := pg_tries (processingEvents q ! i) + n\<rparr>]\<rparr>) \<and>
    (\<exists>calls. handlerCalls (executeEventHandler_loop h s t c tries e False k w) =
         handlerCalls w @ calls \<and> length calls = n \<and>
         map hc_parentId calls = replicate n e \<and> map hc_isRetry calls = replicate n True) \<and>
    clock (executeEventHandler_loop h s t c tries e False k w) = clock w + 5000 * n"
proof (induction n arbitrary: k w q)
  case 0
  then have "executeEventHandler_loop h s t c tries e False k w = w"
    by (simp add: loop_exhausted)
  with "0.prems"(1) show ?case by (simp add: bump_zero)
next
  case (Suc n)
  let ?pes = "processingEvents q"
  let ?q1 = "q\<lparr>processingEvents := ?pes[i := (?pes ! i)\<lparr>pg_tries := pg_tries (?pes ! i) + 1\<rparr>]\<rparr>"
  from Suc.prems have k: "k < 5" "Suc k \<noteq> tries" by simp_all
  from findIndex_Some [OF Suc.prems(2)] have len: "i < length ?pes" by simp
  from always obtain err where err: "h (handlerCalls w) e c = Inl err"
    by (meson isl_def)
  from attempt_fails [of w s t q e i h c err, OF Suc.prems(1,2) err] obtain w1 where
    tp: "tryProcessing s t e c h True w = (Inl err, w1)"
    and q1: "queueFiles (files w1) (s, t) = Some ?q1"
    and calls1: "handlerCalls w1 = handlerCalls w @
      [\<lparr>hc_subscriber = s, hc_topic = t, hc_parentId = e, hc_content = c, hc_isRetry = True,
        hc_at = clock w + 5000, hc_files = files w1\<rparr>]"
    and clock1: "clock w1 = clock w + 5000"
    by blast
  have step: "executeEventHandler_loop h s t c tries e False k w =
      executeEventHandler_loop h s t c tries e False (Suc k) w1"
    using k tp by (intro loop_step_fails) simp_all
  have i1: "findIndex (\<lambda>v. pg_eventId v = e) (processingEvents ?q1) = Some i"
    using Suc.prems(2) by (simp add: findIndex_after_bump)
  from Suc.prems have "tries \<le> Suc k" "Suc k + n = 5" by simp_all
  note IH = Suc.IH [OF q1 i1 this]
  from IH obtain calls where calls:
    "handlerCalls (executeEventHandler_loop h s t c tries e False (Suc k) w1) = handlerCalls w1 @ calls"
    "length calls = n" "map hc_parentId calls = replicate n e" "map hc_isRetry calls = replicate n True"
    by blast
  have "queueFiles (files (executeEventHandler_loop h s t c tries e False k w)) (s, t) =
      Some (q\<lparr>processingEvents := ?pes[i := (?pes ! i)\<lparr>pg_tries := pg_tries (?pes ! i) + Suc n\<rparr>]\<rparr>)"
    using IH len by (simp add: step)
  moreover have "\<exists>calls'. handlerCalls (executeEventHandler_loop h s t c tries e False k w) =
         handlerCalls w @ calls' \<and> length calls' = Suc n \<and>
         map hc_parentId calls' = replicate (Suc n) e \<and> map hc_isRetry calls' = replicate (Suc n) True"
    using calls by (simp add: step calls1)
  moreover have "clock (executeEventHandler_loop h s t c tries e False k w) = clock w + 5000 * Suc n"
    using IH by (simp add: step clock1)
  ultimately show ?case by blast
qed


lemma loop_fails_then_succeeds:
  "\<forall>hist. length hist < length (handlerCalls w) + m \<longrightarrow> isl (h hist e c) \<Longrightarrow>
   \<forall>hist. length hist = length (handlerCalls w) + m \<longrightarrow> h hist e c = Inr () \<Longrightarrow>
   queueFiles (files w) (s, t) = Some q \<Longrightarrow>
   findIndex (\<lambda>v. pg_eventId v = e) (processingEvents q) = Some i \<Longrightarrow>
   tries \<le> k \<Longrightarrow> k + m < 5 \<Longrightarrow>
   queueFiles (files (executeEventHandler_loop h s t c tries e False k w)) (s, t) =
     Some (q\<lparr>processedEvents := processedEvents q @
              [\<lparr>pd_eventId = e, pd_tries = pg_tries (processingEvents q ! i) + Suc m,
                pd_processedAt = clock w + 5000 * Suc m\<rparr>],
            processingEvents := filter (\<lambda>v. pg_eventId v \<noteq> e) (processingEvents q)\<rparr>) \<and>
   (\<exists>calls. handlerCalls (executeEventHandler_loop h s t c tries e False k w) =
        handlerCalls w @ calls \<and> length calls = Suc m \<and>
        map hc_parentId calls = replicate (Suc m) e \<and>
        map hc_isRetry calls = replicate (Suc m) True)"
proof (induction m arbitrary: k w q)
  case 0
  from "0.prems" have k: "k < 5" "Suc k \<noteq> tries" by simp_all
  from "0.prems"(2) have ok: "h (handlerCalls w) e c = Inr ()" by simp
  from attempt_succeeds [of w s t q e i h c, OF "0.prems"(3,4) ok] obtain w1 where
    tp: "tryProcessing s t e c h True w = (Inr (), w1)"
    and q1: "queueFiles (files w1) (s, t) = Some (q\<lparr>
             processedEvents := processedEvents q @
               [\<lparr>pd_eventId = e, pd_tries = pg_tries (processingEvents q ! i) + 1,
                 pd_processedAt = clock w + 5000\<rparr>],
             processingEvents := filter (\<lambda>v. pg_eventId v \<noteq> e) (processingEvents q)\<rparr>)"
    and calls1: "\<exists>call. handlerCalls w1 = handlerCalls w @ [call] \<and>
        hc_parentId call = e \<and> hc_isRetry call"
    by fastforce
  have step: "executeEventHandler_loop h s t c tries e False k w = w1"
    using k tp by (intro loop_step_succeeds) simp_all
  from calls1 obtain call where "handlerCalls w1 = handlerCalls w @ [call]"
    "hc_parentId call = e" "hc_isRetry call" by blast
  then have "\<exists>calls. handlerCalls w1 = handlerCalls w @ calls \<and> length calls = Suc 0 \<and>
        map hc_parentId calls = replicate (Suc 0) e \<and> map hc_isRetry calls = replicate (Suc 0) True"
    by simp
  with q1 show ?case by (simp add: step)
next
  case (Suc m)
  let ?pes = "processingEvents q"
  let ?q1 = "q\<lparr>processingEvents := ?pes[i := (?pes ! i)\<lparr>pg_tries := pg_tries (?pes ! i) + 1\<rparr>]\<rparr>"
  from Suc.prems have k: "k < 5" "Suc k \<noteq> tries" by simp_all
  from findIndex_Some [OF Suc.prems(4)] have len: "i < length ?pes" by simp
  from Suc.prems(1) obtain err where err: "h (handlerCalls w) e c = Inl err"
    by (metis isl_def less_add_Suc1 add_Suc_right)
  from attempt_fails [of w s t q e i h c err, OF Suc.prems(3,4) err] obtain w1 where
    tp: "tryProcessing s t e c h True w = (Inl err, w1)"
    and q1: "queueFiles (files w1) (s, t) = Some ?q1"
    and calls1: "handlerCalls w1 = handlerCalls w @
      [\<lparr>hc_subscriber = s, hc_topic = t, hc_parentId = e, hc_content = c, hc_isRetry = True,
        hc_at = clock w + 5000, hc_files = files w1\<rparr>]"
    and clock1: "clock w1 = clock w + 5000"
    by blast
  have step: "executeEventHandler_loop h s t c tries e False k w =
      executeEventHandler_loop h s t c tries e False (Suc k) w1"
    using k tp by (intro loop_step_fails) simp_all
  have i1: "findIndex (\<lambda>v. pg_eventId v = e) (processingEvents ?q1) = Some i"
    using Suc.prems(4) by (simp add: findIndex_after_bump)
  have fails1: "\<forall>hist. length hist < length (handlerCalls w1) + m \<longrightarrow> isl (h hist e c)"
    using Suc.prems(1) by (simp add: calls1)
  have ok1: "\<forall>hist. length hist = length (handlerCalls w1) + m \<longrightarrow> h hist e c = Inr ()"
    using Suc.prems(2) by (simp add: calls1)
  from Suc.prems have "tries \<le> Suc k" "Suc k + m < 5" by simp_all
  note IH = Suc.IH [OF fails1 ok1 q1 i1 this]
  from IH obtain calls where calls:
    "handlerCalls (executeEventHandler_loop h s t c tries e False (Suc k) w1) = handlerCalls w1 @ calls"
    "length calls = Suc m" "map hc_parentId calls = replicate (Suc m) e"
    "map hc_isRetry calls = replicate (Suc m) True"
    by blast
  have "queueFiles (files (executeEventHandler_loop h s t c tries e False k w)) (s, t) =
     Some (q\<lparr>processedEvents := processedEvents q @
              [\<lparr>pd_eventId = e, pd_tries = pg_tries (?pes ! i) + Suc (Suc m),
                pd_processedAt = clock w + 5000 * Suc (Suc m)\<rparr>],
            processingEvents := filter (\<lambda>v. pg_eventId v \<noteq> e) ?pes\<rparr>)"
    using IH len by (simp add: step clock1 filter_after_bump [OF Suc.prems(4)])
  moreover have "\<exists>calls'. handlerCalls (executeEventHandler_loop h s t c tries e False k w) =
        handlerCalls w @ calls' \<and> length calls' = Suc (Suc m) \<and>
        map hc_parentId calls' = replicate (Suc (Suc m)) e \<and>
        map hc_isRetry calls' = replicate (Suc (Suc m)) True"
    using calls by (simp add: step calls1)
  ultimately show ?case by blast
qed

section \<open>What a delivery leaves alone\<close>

lemma sameExceptQueue_refl [simp]: "sameExceptQueue s t w w"
  by (simp add: sameExceptQueue_def)

lemma sameExceptQueue_trans:
  "sameExceptQueue s t w w1 \<Longrightarrow> sameExceptQueue s t w1 w2 \<Longrightarrow> sameExceptQueue s t w w2"
  by (simp add: sameExceptQueue_def)

lemma sameExceptQueue_writeJSON_queue [simp]:
  "sameExceptQueue s t w (writeJSON_queue s t q w)"
  by (simp add: sameExceptQueue_def writeJSON_queue_def)

lemma sameExceptQueue_setTimeout5000 [simp]: "sameExceptQueue s t w (setTimeout5000 w)"
  by (simp add: sameExceptQueue_def setTimeout5000_def)

lemma sameExceptQueue_handlerCalls:
  "sameExceptQueue s t w w1 \<Longrightarrow> sameExceptQueue s t w (w1\<lparr>handlerCalls := cs\<rparr>)"
  by (simp add: sameExceptQueue_def)

lemma incrementTries_frame: "sameExceptQueue s t w (snd (incrementTries s t e w))"
  by (simp add: incrementTries_def Let_def split: option.splits)

lemma eventAcknowledged_frame: "sameExceptQueue s t w (snd (eventAcknowledged s t e w))"
  by (simp add: eventAcknowledged_def Let_def split: option.splits prod.splits list.splits)

lemma attemptBody_frame: "sameExceptQueue s t w (snd (attemptBody s t e c h r w))"
proof (cases "incrementTries s t e w")
  case (Pair res w1)
  with incrementTries_frame [of s t w e] have f1: "sameExceptQueue s t w w1" by simp
  show ?thesis
  proof (cases res)
    case (Inl err)
    with Pair f1 show ?thesis by (simp add: attemptBody_def)
  next
    case (Inr u)
    let ?w2 = "w1\<lparr>handlerCalls := handlerCalls w1 @
      [\<lparr>hc_subscriber = s, hc_topic = t, hc_parentId = e, hc_content = c, hc_isRetry = r,
        hc_at = clock w1, hc_files = files w1\<rparr>]\<rparr>"
    have f2: "sameExceptQueue s t w ?w2"
      using f1 by (rule sameExceptQueue_handlerCalls)
    have f3: "sameExceptQueue s t w (snd (eventAcknowledged s t e ?w2))"
      using f2 eventAcknowledged_frame by (rule sameExceptQueue_trans)
    show ?thesis
      using Pair Inr f2 f3 by (simp add: attemptBody_def Let_def split: sum.splits)
  qed
qed

lemma tryProcessing_frame: "sameExceptQueue s t w (snd (tryProcessing s t e c h r w))"
proof (cases r)
  case True
  have "sameExceptQueue s t w (snd (attemptBody s t e c h r (setTimeout5000 w)))"
    using sameExceptQueue_setTimeout5000 attemptBody_frame by (rule sameExceptQueue_trans)
  with True show ?thesis by (simp add: tryProcessing_def)
next
  case False
  with attemptBody_frame [of s t w e c h r] show ?thesis by (simp add: tryProcessing_def)
qed

lemma loop_frame:
  "sameExceptQueue s t w (executeEventHandler_loop h s t c tries e acked k w)"
proof (induction "5 - k" arbitrary: k acked w)
  case 0
  then show ?case by (simp add: loop_exhausted)
next
  case (Suc n)
  then have k: "k < 5" and n: "n = 5 - Suc k" by simp_all
  show ?case
  proof (cases acked)
    case True
    then show ?thesis by (simp add: loop_acked)
  next
    case False
    obtain res w1 where tp: "tryProcessing s t e c h (Suc k \<noteq> tries) w = (res, w1)"
      by (cases "tryProcessing s t e c h (Suc k \<noteq> tries) w")
    with tryProcessing_frame [of s t w e c h "Suc k \<noteq> tries"]
    have f1: "sameExceptQueue s t w w1" by simp
    show ?thesis
    proof (cases res)
      case (Inl err)
      with tp k have "executeEventHandler_loop h s t c tries e False k w =
          executeEventHandler_loop h s t c tries e False (Suc k) w1"
        by (intro loop_step_fails) simp_all
      with False f1 Suc.hyps(1) [OF n, of w1 False] show ?thesis
        by (auto intro: sameExceptQueue_trans)
    next
      case (Inr u)
      with tp k have "executeEventHandler_loop h s t c tries e False k w = w1"
        by (intro loop_step_succeeds) simp_all
      with False f1 show ?thesis by simp
    qed
  qed
qed

lemma executeEventHandler_frame:
  "sameExceptQueue s t w (executeEventHandler h s t c tries e w)"
  by (simp add: executeEventHandler_def loop_frame)

section \<open>A delivery in steps\<close>

text \<open>
  \<open>incrementTries\<close> and \<open>eventAcknowledged\<close> are their read, the computation on
  the queue that was read, and their write, with nothing in between.
\<close>

lemma incrementTries_as_read_write:
  "incrementTries s t e w =
     (case readJSON_queue s t w of
        None \<Rightarrow> (Inl (QueueFileDoesNotExist s t), w)
      | Some q \<Rightarrow>
          (case incrementedQueue e q of
             None \<Rightarrow> (Inl TypeError, w)
           | Some q' \<Rightarrow> (Inr (), writeJSON_queue s t q' w)))"
  by (simp add: incrementTries_def incrementedQueue_def Let_def split: option.splits)

lemma acknowledgedQueue_found:
  assumes "findIndex (\<lambda>v. pg_eventId v = e) (processingEvents q) = Some i"
  shows "acknowledgedQueue e now q =
     Some (q\<lparr>processedEvents := processedEvents q @
             [\<lparr>pd_eventId = e, pd_tries = pg_tries (processingEvents q ! i), pd_processedAt = now\<rparr>],
           processingEvents := filter (\<lambda>v. pg_eventId v \<noteq> e) (processingEvents q)\<rparr>)"
proof -
  from findIndex_Some [OF assms] have i: "i < length (processingEvents q)" by simp
  show ?thesis
    using assms filter_without_first [OF assms]
    by (simp add: acknowledgedQueue_def splice1_valid [OF i] Let_def)
qed

lemma acknowledgedQueue_absent:
  "findIndex (\<lambda>v. pg_eventId v = e) (processingEvents q) = None \<Longrightarrow>
   acknowledgedQueue e now q = None"
  by (simp add: acknowledgedQueue_def)

lemma eventAcknowledged_as_read_write:
  "eventAcknowledged s t e w =
     (case readJSON_queue s t w of
        None \<Rightarrow> (Inl (QueueFileDoesNotExist s t), w)
      | Some q \<Rightarrow>
          (case acknowledgedQueue e (clock w) q of
             None \<Rightarrow> (Inl (ProcessedEventNotFound s t e), w)
           | Some q' \<Rightarrow> (Inr (), writeJSON_queue s t q' w)))"
proof (cases "readJSON_queue s t w")
  case None
  then show ?thesis by (simp add: eventAcknowledged_def)
next
  case (Some q)
  then have onDisk: "queueFiles (files w) (s, t) = Some q"
    by (simp add: readJSON_queue_def)
  show ?thesis
  proof (cases "findIndex (\<lambda>v. pg_eventId v = e) (processingEvents q)")
    case None
    with Some show ?thesis
      by (simp add: eventAcknowledged_def acknowledgedQueue_absent)
  next
    case (Some i)
    with \<open>readJSON_queue s t w = Some q\<close> show ?thesis
      by (simp add: eventAcknowledged_found [OF onDisk Some] acknowledgedQueue_found [OF Some])
  qed
qed

lemma nextAttempt_phase: "nextAttempt (d\<lparr>dv_phase := p\<rparr>) w = nextAttempt d w"
  by (simp add: nextAttempt_def Let_def)

lemma runAlone_Finished: "dv_phase d = Finished \<Longrightarrow> runAlone d w = w"
  by (simp add: runAlone.simps)

lemma runAlone_step:
  "dv_phase d \<noteq> Finished \<Longrightarrow> stepDelivery d w = (d', w') \<Longrightarrow> runAlone d w = runAlone d' w'"
  by (subst runAlone.simps) simp

text \<open>
  One attempt, from the read of \<open>incrementTries\<close> on: stepped alone, the delivery
  does what \<open>attemptBody\<close> does, and after a rejection it is at the head of the loop.
\<close>

lemma runAlone_attempt:
  assumes "dv_phase d = AwaitIncrementRead"
  shows "runAlone d w =
     (case attemptBody (dv_subscriber d) (dv_topic d) (dv_parentId d) (dv_content d)
             (dv_eventHandler d) (dv_isRetry d) w of
        (Inr u, w') \<Rightarrow> w'
      | (Inl err, w') \<Rightarrow> runAlone (nextAttempt d w') w')"
proof -
  let ?s = "dv_subscriber d" and ?t = "dv_topic d" and ?e = "dv_parentId d"
  let ?c = "dv_content d" and ?h = "dv_eventHandler d" and ?r = "dv_isRetry d"
  from assms have active: "dv_phase d \<noteq> Finished" by simp
  show ?thesis
  proof (cases "readJSON_queue ?s ?t w")
    case None
    with assms have "stepDelivery d w = (nextAttempt d w, w)"
      by (simp add: stepDelivery_def)
    from runAlone_step [OF active this] None show ?thesis
      by (simp add: attemptBody_def incrementTries_as_read_write)
  next
    case (Some q)
    note read1 = Some
    show ?thesis
    proof (cases "incrementedQueue ?e q")
      case None
      with assms read1 have "stepDelivery d w = (nextAttempt d w, w)"
        by (simp add: stepDelivery_def)
      from runAlone_step [OF active this] None read1 show ?thesis
        by (simp add: attemptBody_def incrementTries_as_read_write)
    next
      case (Some q1)
      define w1 where "w1 = writeJSON_queue ?s ?t q1 w"
      define outcome where "outcome = ?h (handlerCalls w1) ?e ?c"
      define w2 where "w2 = w1\<lparr>handlerCalls := handlerCalls w1 @
        [\<lparr>hc_subscriber = ?s, hc_topic = ?t, hc_parentId = ?e, hc_content = ?c,
          hc_isRetry = ?r, hc_at = clock w1, hc_files = files w1\<rparr>]\<rparr>"
      have inc: "incrementTries ?s ?t ?e w = (Inr (), w1)"
        using read1 Some by (simp add: incrementTries_as_read_write w1_def)
      have body: "attemptBody ?s ?t ?e ?c ?h ?r w =
          (case outcome of Inl err \<Rightarrow> (Inl err, w2) | Inr u \<Rightarrow> eventAcknowledged ?s ?t ?e w2)"
        unfolding outcome_def w2_def by (simp add: attemptBody_def inc Let_def)
      have step1: "runAlone d w = runAlone (d\<lparr>dv_phase := AwaitIncrementWrite q1\<rparr>) w"
        using assms read1 Some
        by (intro runAlone_step [OF active]) (simp add: stepDelivery_def)
      have step2: "runAlone (d\<lparr>dv_phase := AwaitIncrementWrite q1\<rparr>) w =
          runAlone (d\<lparr>dv_phase := AwaitHandlerCall\<rparr>) w1"
        by (rule runAlone_step) (simp_all add: stepDelivery_def w1_def)
      have step3: "runAlone (d\<lparr>dv_phase := AwaitHandlerCall\<rparr>) w1 =
          runAlone (d\<lparr>dv_phase := AwaitHandler outcome\<rparr>) w2"
        by (rule runAlone_step) (simp_all add: stepDelivery_def Let_def outcome_def w2_def)
      note steps = step1 step2 step3
      show ?thesis
      proof (cases outcome)
        case (Inl err)
        have "runAlone (d\<lparr>dv_phase := AwaitHandler outcome\<rparr>) w2 =
            runAlone (nextAttempt d w2) w2"
          by (rule runAlone_step) (simp_all add: stepDelivery_def Inl nextAttempt_phase)
        with steps show ?thesis
          by (simp add: body Inl)
      next
        case (Inr u)
        have step4: "runAlone (d\<lparr>dv_phase := AwaitHandler outcome\<rparr>) w2 =
            runAlone (d\<lparr>dv_phase := AwaitAcknowledgeRead\<rparr>) w2"
          by (rule runAlone_step) (simp_all add: stepDelivery_def Inr)
        have body': "attemptBody ?s ?t ?e ?c ?h ?r w = eventAcknowledged ?s ?t ?e w2"
          by (simp add: body Inr)
        show ?thesis
        proof (cases "readJSON_queue ?s ?t w2")
          case None
          have "runAlone (d\<lparr>dv_phase := AwaitAcknowledgeRead\<rparr>) w2 =
              runAlone (nextAttempt d w2) w2"
            by (rule runAlone_step) (simp_all add: stepDelivery_def None nextAttempt_phase)
          with steps step4 None show ?thesis
            by (simp add: body' eventAcknowledged_as_read_write)
        next
          case (Some q2)
          note read2 = Some
          show ?thesis
          proof (cases "acknowledgedQueue ?e (clock w2) q2")
            case None
            have "runAlone (d\<lparr>dv_phase := AwaitAcknowledgeRead\<rparr>) w2 =
                runAlone (nextAttempt d w2) w2"
              by (rule runAlone_step)
                (simp_all add: stepDelivery_def None read2 nextAttempt_phase)
            with steps step4 None read2 show ?thesis
              by (simp add: body' eventAcknowledged_as_read_write)
          next
            case (Some q3)
            have step5: "runAlone (d\<lparr>dv_phase := AwaitAcknowledgeRead\<rparr>) w2 =
                runAlone (d\<lparr>dv_phase := AwaitAcknowledgeWrite q3\<rparr>) w2"
              by (rule runAlone_step) (simp_all add: stepDelivery_def Some read2)
            have step6: "runAlone (d\<lparr>dv_phase := AwaitAcknowledgeWrite q3\<rparr>) w2 =
                runAlone (d\<lparr>dv_phase := Finished\<rparr>) (writeJSON_queue ?s ?t q3 w2)"
              by (rule runAlone_step) (simp_all add: stepDelivery_def)
            have "runAlone (d\<lparr>dv_phase := Finished\<rparr>) (writeJSON_queue ?s ?t q3 w2) =
                writeJSON_queue ?s ?t q3 w2"
              by (rule runAlone_Finished) simp
            with steps step4 step5 step6 Some read2 show ?thesis
              by (simp add: body' eventAcknowledged_as_read_write)
          qed
        qed
      qed
    qed
  qed
qed

lemma runAlone_loop:
  "runAlone (nextAttempt d w) w =
     executeEventHandler_loop (dv_eventHandler d) (dv_subscriber d) (dv_topic d) (dv_content d)
       (dv_tries d) (dv_parentId d) False (dv_triesCount d) w"
proof (induction "5 - dv_triesCount d" arbitrary: d w)
  case 0
  then have "dv_phase (nextAttempt d w) = Finished"
    by (simp add: nextAttempt_def)
  with 0 show ?case
    by (simp add: runAlone_Finished loop_exhausted)
next
  case (Suc n)
  let ?s = "dv_subscriber d" and ?t = "dv_topic d" and ?e = "dv_parentId d"
  let ?c = "dv_content d" and ?h = "dv_eventHandler d"
  let ?k = "Suc (dv_triesCount d)"
  let ?r = "?k \<noteq> dv_tries d"
  let ?d1 = "d\<lparr>dv_triesCount := ?k, dv_isRetry := ?r, dv_phase := AwaitIncrementRead\<rparr>"
  let ?w0 = "if ?r then setTimeout5000 w else w"
  from Suc.hyps(2) have k: "dv_triesCount d < 5" by simp
  have start: "runAlone (nextAttempt d w) w = runAlone ?d1 ?w0"
  proof (cases ?r)
    case True
    with k have next1: "nextAttempt d w = ?d1\<lparr>dv_phase := AwaitTimer (clock w + 5000)\<rparr>"
      by (simp add: nextAttempt_def Let_def)
    have "runAlone (?d1\<lparr>dv_phase := AwaitTimer (clock w + 5000)\<rparr>) w =
        runAlone ?d1 (setTimeout5000 w)"
      by (rule runAlone_step) (simp_all add: stepDelivery_def setTimeout5000_def)
    with True next1 show ?thesis by simp
  next
    case False
    with k have "nextAttempt d w = ?d1"
      by (simp add: nextAttempt_def Let_def)
    with False show ?thesis by simp
  qed
  have body: "tryProcessing ?s ?t ?e ?c ?h ?r w = attemptBody ?s ?t ?e ?c ?h ?r ?w0"
    by (simp add: tryProcessing_def)
  obtain res w' where tp: "tryProcessing ?s ?t ?e ?c ?h ?r w = (res, w')"
    by (cases "tryProcessing ?s ?t ?e ?c ?h ?r w")
  have sel: "dv_subscriber ?d1 = ?s" "dv_topic ?d1 = ?t" "dv_parentId ?d1 = ?e"
    "dv_content ?d1 = ?c" "dv_eventHandler ?d1 = ?h" "dv_isRetry ?d1 = ?r"
    "dv_phase ?d1 = AwaitIncrementRead"
    by simp_all
  note at = runAlone_attempt [of ?d1 ?w0, unfolded sel body [symmetric] tp, OF refl]
  have attempt: "runAlone ?d1 ?w0 =
      (case res of Inr u \<Rightarrow> w' | Inl err \<Rightarrow> runAlone (nextAttempt ?d1 w') w')"
    by (subst at) (simp split: sum.splits)
  show ?case
  proof (cases res)
    case (Inr u)
    with tp k have "executeEventHandler_loop ?h ?s ?t ?c (dv_tries d) ?e False (dv_triesCount d) w = w'"
      by (intro loop_step_succeeds) simp_all
    with start attempt Inr show ?thesis by simp
  next
    case (Inl err)
    with tp k have "executeEventHandler_loop ?h ?s ?t ?c (dv_tries d) ?e False (dv_triesCount d) w =
        executeEventHandler_loop ?h ?s ?t ?c (dv_tries d) ?e False ?k w'"
      by (intro loop_step_fails) simp_all
    moreover from Suc.hyps(2) have "n = 5 - dv_triesCount ?d1" by simp
    from Suc.hyps(1) [OF this, of w'] have "runAlone (nextAttempt ?d1 w') w' =
        executeEventHandler_loop ?h ?s ?t ?c (dv_tries d) ?e False ?k w'"
      by simp
    ultimately show ?thesis
      using start attempt Inl by simp
  qed
qed

text \<open>
  A delivery that is started and stepped to its end with nothing else in between is
  \<open>executeEventHandler\<close> of the previous section.
\<close>

lemma runAlone_startDelivery:
  "runAlone (startDelivery h s t c tries e w) w = executeEventHandler h s t c tries e w"
  by (simp add: startDelivery_def executeEventHandler_def runAlone_loop)

subsection \<open>The loop turns often enough\<close>

lemma rank_nextAttempt: "rank (nextAttempt d w) < (5 - dv_triesCount d) * 8 + 2"
proof (cases "dv_triesCount d < 5")
  case True
  then have count: "dv_triesCount (nextAttempt d w) = dv_triesCount d + 1"
    by (simp add: nextAttempt_def Let_def)
  from True have "dv_phase (nextAttempt d w) = AwaitTimer (clock w + 5000) \<or>
      dv_phase (nextAttempt d w) = AwaitIncrementRead"
    by (simp add: nextAttempt_def Let_def)
  then have "rank (nextAttempt d w) \<le> (5 - (dv_triesCount d + 1)) * 8 + 7"
    by (auto simp only: rank_def count Phase.case)
  also from True have "\<dots> < (5 - dv_triesCount d) * 8 + 2"
    by arith
  finally show ?thesis .
next
  case False
  then show ?thesis
    by (simp add: nextAttempt_def rank_def)
qed

lemma rank_stepDelivery:
  assumes "dv_phase d \<noteq> Finished"
  shows "rank (fst (stepDelivery d w)) < rank d"
proof (cases "dv_phase d")
  case (AwaitTimer due)
  then show ?thesis by (simp add: stepDelivery_def rank_def)
next
  case AwaitIncrementRead
  with rank_nextAttempt [of d w] show ?thesis
    by (simp add: stepDelivery_def split: option.splits) (simp add: rank_def)
next
  case (AwaitIncrementWrite q)
  then show ?thesis by (simp add: stepDelivery_def rank_def)
next
  case AwaitHandlerCall
  then show ?thesis by (simp add: stepDelivery_def rank_def Let_def)
next
  case (AwaitHandler outcome)
  with rank_nextAttempt [of d w] show ?thesis
    by (simp add: stepDelivery_def split: sum.splits) (simp add: rank_def)
next
  case AwaitAcknowledgeRead
  with rank_nextAttempt [of d w] show ?thesis
    by (simp add: stepDelivery_def split: option.splits) (simp add: rank_def)
next
  case (AwaitAcknowledgeWrite q)
  then show ?thesis by (simp add: stepDelivery_def rank_def)
next
  case Finished
  with assms show ?thesis by simp
qed

lemma eligible_active: "eligible now d \<Longrightarrow> dv_phase d \<noteq> Finished"
  by (auto simp: eligible_def)

lemma rank_Finished: "rank d = 0 \<longleftrightarrow> dv_phase d = Finished"
  by (cases "dv_phase d") (simp_all add: rank_def)

lemma clock_stepDelivery: "eligible (clock w) d \<Longrightarrow> clock (snd (stepDelivery d w)) = clock w"
  by (cases "dv_phase d")
    (simp_all add: stepDelivery_def eligible_def writeJSON_queue_def Let_def
      split: option.splits sum.splits)

lemma clock_stepAll: "clock (snd (stepAll ds w)) = clock w"
proof (induction ds arbitrary: w)
  case Nil
  show ?case by simp
next
  case (Cons d ds)
  show ?case
    using Cons.IH [of "snd (stepDelivery d w)"] Cons.IH [of w] clock_stepDelivery [of w d]
    by (simp add: split_def)
qed

lemma length_stepAll: "length (fst (stepAll ds w)) = length ds"
  by (induction ds arbitrary: w) (simp_all add: split_def)

text \<open>A turn of the loop lowers no rank, and lowers the rank of each delivery it steps.\<close>

lemma rank_stepAll:
  "sum_list (map rank (fst (stepAll ds w))) \<le> sum_list (map rank ds) \<and>
   (list_ex (eligible (clock w)) ds \<longrightarrow>
      sum_list (map rank (fst (stepAll ds w))) < sum_list (map rank ds))"
proof (induction ds arbitrary: w)
  case Nil
  show ?case by simp
next
  case (Cons d ds)
  show ?case
  proof (cases "eligible (clock w) d")
    case True
    from rank_stepDelivery [OF eligible_active [OF True], of w]
    have "rank (fst (stepDelivery d w)) < rank d" .
    moreover from Cons.IH [of "snd (stepDelivery d w)"]
    have "sum_list (map rank (fst (stepAll ds (snd (stepDelivery d w))))) \<le> sum_list (map rank ds)"
      by simp
    ultimately show ?thesis
      using True by (simp add: split_def)
  next
    case False
    with Cons.IH [of w] show ?thesis
      by (simp add: split_def)
  qed
qed

lemma fold_min_in: "fold min dues (due :: nat) \<in> set (due # dues)"
proof (induction dues arbitrary: due)
  case Nil
  show ?case by simp
next
  case (Cons a dues)
  from Cons.IH [of "min a due"] show ?case
    by (auto simp: min_def split: if_splits)
qed

lemma timers_eligible:
  "due \<in> set (timers ds) \<Longrightarrow> due \<le> now \<Longrightarrow> list_ex (eligible now) ds"
  by (induction ds) (auto simp: timers_def eligible_def split: Phase.splits)

lemma waiting_for_timer:
  "\<not> list_ex (eligible now) ds \<Longrightarrow> \<not> list_all (\<lambda>d. dv_phase d = Finished) ds \<Longrightarrow> timers ds \<noteq> []"
  by (induction ds) (auto simp: timers_def eligible_def split: Phase.splits)

lemma rank_eventLoop:
  assumes "\<not> list_all (\<lambda>d. dv_phase d = Finished) (inFlight w)"
  shows "sum_list (map rank (inFlight (eventLoop w))) < sum_list (map rank (inFlight w))"
proof -
  define w0 where "w0 = (if list_ex (eligible (clock w)) (inFlight w) then w
      else (case timers (inFlight w) of
              [] \<Rightarrow> w
            | due # dues \<Rightarrow> w\<lparr>clock := max (clock w) (fold min dues due)\<rparr>))"
  have pool: "inFlight w0 = inFlight w"
    by (simp add: w0_def split: list.splits)
  have "list_ex (eligible (clock w0)) (inFlight w)"
  proof (cases "list_ex (eligible (clock w)) (inFlight w)")
    case True
    then show ?thesis by (simp add: w0_def)
  next
    case False
    from waiting_for_timer [OF False assms] obtain due dues where
      timers: "timers (inFlight w) = due # dues"
      by (cases "timers (inFlight w)") auto
    have "fold min dues due \<in> set (timers (inFlight w))"
      using fold_min_in [of dues due] by (simp add: timers)
    moreover have "fold min dues due \<le> clock w0"
      using False by (simp add: w0_def timers)
    ultimately show ?thesis by (rule timers_eligible)
  qed
  with rank_stepAll [of "inFlight w0" w0] pool
  have "sum_list (map rank (fst (stepAll (inFlight w0) w0))) < sum_list (map rank (inFlight w))"
    by simp
  moreover have "inFlight (eventLoop w) = fst (stepAll (inFlight w0) w0)"
    by (simp add: eventLoop_def w0_def Let_def split_def)
  ultimately show ?thesis by simp
qed

text \<open>
  So the loop has turned often enough when it has turned as often as the sum of the
  ranks: whatever the loop is waiting for, if it holds as soon as every delivery has
  finished, it holds when \<open>turns\<close> returns.
\<close>

lemma turns_enough:
  assumes "\<And>w. list_all (\<lambda>d. dv_phase d = Finished) (inFlight w) \<Longrightarrow> stop w"
  shows "sum_list (map rank (inFlight w)) \<le> n \<Longrightarrow> stop (turns n stop w)"
proof (induction n arbitrary: w)
  case 0
  then have "list_all (\<lambda>d. dv_phase d = Finished) (inFlight w)"
    by (simp add: list_all_iff rank_Finished)
  with assms show ?case by simp
next
  case (Suc n)
  show ?case
  proof (cases "stop w")
    case True
    then show ?thesis by simp
  next
    case False
    with assms have "\<not> list_all (\<lambda>d. dv_phase d = Finished) (inFlight w)"
      by blast
    from rank_eventLoop [OF this] Suc.prems
    have "sum_list (map rank (inFlight (eventLoop w))) \<le> n"
      by simp
    from Suc.IH [OF this] False show ?thesis by simp
  qed
qed

lemma awaitAll_resolved: "list_all resolved (drop n (inFlight (awaitAll n w)))"
  unfolding awaitAll_def
proof (rule turns_enough)
  fix w' :: World
  assume "list_all (\<lambda>d. dv_phase d = Finished) (inFlight w')"
  then show "list_all resolved (drop n (inFlight w'))"
    by (auto simp: list_all_iff resolved_def dest: in_set_dropD)
qed simp

lemma settle_finished: "list_all (\<lambda>d. dv_phase d = Finished) (inFlight (settle w))"
  unfolding settle_def by (rule turns_enough) simp_all

section \<open>A handler that always fails\<close>

lemma pendingWorld_index:
  "findIndex (\<lambda>v. pg_eventId v = ''e1'') (processingEvents pendingQueue) = Some 0"
  by (simp add: pendingQueue_def)

lemma pendingWorld_calls: "handlerCalls pendingWorld = []"
  by (simp add: pendingWorld_def initialWorld_def)

lemma pendingWorld_clock: "clock pendingWorld = 0"
  by (simp add: pendingWorld_def initialWorld_def)

lemma pendingWorld_no_dead_letters: "deadLetterFile (files pendingWorld) = None"
  by (simp add: pendingWorld_def initialWorld_def emptyFiles_def writeJSON_queue_def)

lemma pendingWorld_no_errors: "errorFile (files pendingWorld) = None"
  by (simp add: pendingWorld_def initialWorld_def emptyFiles_def writeJSON_queue_def)

text \<open>
  What the engine does for a handler that always fails. Let the event be in
  \<open>processingEvents\<close> of the subscription (its first entry with that id is at
  index \<open>i\<close>) and let the handler reject whenever it is called with this event.
  Then \<open>executeEventHandler\<close>,
  entered with \<open>tries = 0\<close>, calls the handler exactly five times for the event;
  afterwards the entry is still in \<open>processingEvents\<close>, with \<open>tries\<close> five
  higher; a later \<open>executeEventHandler\<close> with the stored \<open>tries\<close> does
  nothing, so the event is not retried again; and the dead-letter file is what it was
  before: no record is written.
\<close>

theorem failing_handler_five_attempts:
  assumes "queueFiles (files w) (s, t) = Some q"
    and "findIndex (\<lambda>v. pg_eventId v = e) (processingEvents q) = Some i"
    and "\<forall>hist. isl (h hist e c)"
  shows "(\<exists>calls. handlerCalls (executeEventHandler h s t c 0 e w) = handlerCalls w @ calls \<and>
            length calls = 5 \<and> map hc_parentId calls = replicate 5 e) \<and>
         queueFiles (files (executeEventHandler h s t c 0 e w)) (s, t) =
           Some (q\<lparr>processingEvents := (processingEvents q)
             [i := (processingEvents q ! i)\<lparr>pg_tries := pg_tries (processingEvents q ! i) + 5\<rparr>]\<rparr>) \<and>
         executeEventHandler h s t c (pg_tries (processingEvents q ! i) + 5) e
           (executeEventHandler h s t c 0 e w) = executeEventHandler h s t c 0 e w \<and>
         deadLetterFile (files (executeEventHandler h s t c 0 e w)) = deadLetterFile (files w)"
proof -
  have "(0::nat) \<le> 0" and "(0::nat) + 5 = 5" by simp_all
  note run = loop_all_fail [where h = h and e = e and c = c, OF assms(3) assms(1) assms(2) this]
  from run have calls: "\<exists>calls. handlerCalls (executeEventHandler h s t c 0 e w) =
      handlerCalls w @ calls \<and> length calls = 5 \<and> map hc_parentId calls = replicate 5 e"
    unfolding executeEventHandler_def by blast
  from run have queue: "queueFiles (files (executeEventHandler h s t c 0 e w)) (s, t) =
      Some (q\<lparr>processingEvents := (processingEvents q)
        [i := (processingEvents q ! i)\<lparr>pg_tries := pg_tries (processingEvents q ! i) + 5\<rparr>]\<rparr>)"
    unfolding executeEventHandler_def by blast
  have stop: "executeEventHandler h s t c (pg_tries (processingEvents q ! i) + 5) e
      (executeEventHandler h s t c 0 e w) = executeEventHandler h s t c 0 e w"
    by (rule executeEventHandler_exhausted) simp
  have frame: "deadLetterFile (files (executeEventHandler h s t c 0 e w)) = deadLetterFile (files w)"
    using executeEventHandler_frame [of s t w h c 0 e] by (simp add: sameExceptQueue_def)
  from calls queue stop frame show ?thesis by blast
qed

theorem failing_handler_five_attempts_witness:
  "queueFiles (files pendingWorld) (PAYMENT, ORDER_CREATED) = Some pendingQueue \<and>
   findIndex (\<lambda>v. pg_eventId v = ''e1'') (processingEvents pendingQueue) = Some 0 \<and>
   (\<forall>hist. isl (alwaysFails hist ''e1'' ''{x:1}'')) \<and>
   queueFiles (files (executeEventHandler alwaysFails PAYMENT ORDER_CREATED ''{x:1}'' 0 ''e1''
       pendingWorld)) (PAYMENT, ORDER_CREATED) =
     Some (pendingQueue\<lparr>processingEvents :=
       [\<lparr>pg_eventId = ''e1'', pg_content = ''{x:1}'', pg_tries = 5\<rparr>]\<rparr>) \<and>
   length (handlerCalls (executeEventHandler alwaysFails PAYMENT ORDER_CREATED ''{x:1}'' 0 ''e1''
       pendingWorld)) = 5"
proof -
  have fails: "\<forall>hist. isl (alwaysFails hist ''e1'' ''{x:1}'')"
    by (simp add: alwaysFails_def)
  note run = failing_handler_five_attempts [where h = alwaysFails and e = "''e1''" and
      c = "''{x:1}''", OF pendingWorld_queue pendingWorld_index fails]
  from run have "queueFiles (files (executeEventHandler alwaysFails PAYMENT ORDER_CREATED ''{x:1}'' 0
       ''e1'' pendingWorld)) (PAYMENT, ORDER_CREATED) =
     Some (pendingQueue\<lparr>processingEvents :=
       [\<lparr>pg_eventId = ''e1'', pg_content = ''{x:1}'', pg_tries = 5\<rparr>]\<rparr>)"
    by (simp add: pendingQueue_def)
  moreover from run have "length (handlerCalls (executeEventHandler alwaysFails PAYMENT
       ORDER_CREATED ''{x:1}'' 0 ''e1'' pendingWorld)) = 5"
    by (auto simp: pendingWorld_calls)
  ultimately show ?thesis
    using pendingWorld_queue pendingWorld_index fails by blast
qed

text \<open>
  C1 on the scenario: the handler fails on each of the five attempts, after which the
  event is still in \<open>processingEvents\<close>, with \<open>tries = 5\<close>, and no
  dead-letter file exists: the record that C1 requires has not been persisted. The
  source's comments ask for it (\<open>After 5 times of retry, send the event to
  'DeadLetterQueue'\<close>), and \<open>executeEventHandler\<close> ends when its loop ends.
\<close>

theorem failing_handler_leaves_no_dead_letter:
  "length (handlerCalls (executeEventHandler alwaysFails PAYMENT ORDER_CREATED ''{x:1}'' 0 ''e1''
       pendingWorld)) = 5 \<and>
   queueFiles (files (executeEventHandler alwaysFails PAYMENT ORDER_CREATED ''{x:1}'' 0 ''e1''
       pendingWorld)) (PAYMENT, ORDER_CREATED) =
     Some (pendingQueue\<lparr>processingEvents :=
       [\<lparr>pg_eventId = ''e1'', pg_content = ''{x:1}'', pg_tries = 5\<rparr>]\<rparr>) \<and>
   deadLetterFile (files (executeEventHandler alwaysFails PAYMENT ORDER_CREATED ''{x:1}'' 0 ''e1''
       pendingWorld)) = None"
proof -
  let ?w = "executeEventHandler alwaysFails PAYMENT ORDER_CREATED ''{x:1}'' 0 ''e1'' pendingWorld"
  have fails: "\<forall>hist. isl (alwaysFails hist ''e1'' ''{x:1}'')"
    by (simp add: alwaysFails_def)
  have "(0::nat) \<le> 0" and "(0::nat) + 5 = 5" by simp_all
  note run = loop_all_fail [where h = alwaysFails and e = "''e1''" and c = "''{x:1}''",
      OF fails pendingWorld_queue pendingWorld_index this]
  from run have "length (handlerCalls ?w) = 5"
    unfolding executeEventHandler_def by (auto simp: pendingWorld_calls)
  moreover from run have "queueFiles (files ?w) (PAYMENT, ORDER_CREATED) =
     Some (pendingQueue\<lparr>processingEvents :=
       [\<lparr>pg_eventId = ''e1'', pg_content = ''{x:1}'', pg_tries = 5\<rparr>]\<rparr>)"
    unfolding executeEventHandler_def by (simp add: pendingQueue_def)
  moreover have "deadLetterFile (files ?w) = None"
    using executeEventHandler_frame [of PAYMENT ORDER_CREATED pendingWorld alwaysFails "''{x:1}''" 0 "''e1''"]
    by (simp add: sameExceptQueue_def pendingWorld_no_dead_letters)
  ultimately show ?thesis by blast
qed

section \<open>A handler that fails four times\<close>

lemma tryProcessing_errorFile:
  "errorFile (files (snd (tryProcessing s t e c h r w))) = errorFile (files w)"
  using tryProcessing_frame [of s t w e c h r] by (simp add: sameExceptQueue_def)

text \<open>
  What the engine does with the errors of a handler. No attempt writes an error record:
  \<open>tryProcessing\<close> leaves the error file as it was, whatever the handler does,
  and so does
  \<open>executeEventHandler\<close>, whose \<open>catch\<close> drops the error. For a handler
  that rejects its first four calls for the event and resolves the fifth, the event ends
  in \<open>processedEvents\<close> with \<open>tries\<close> five higher than it was (5 for a new
  event), it is no longer in \<open>processingEvents\<close>, the handler was called five
  times, and the error file is unchanged.
\<close>

theorem failed_attempts_write_no_error_record:
  assumes "queueFiles (files w) (s, t) = Some q"
    and "findIndex (\<lambda>v. pg_eventId v = e) (processingEvents q) = Some i"
    and "\<forall>hist. length hist < length (handlerCalls w) + 4 \<longrightarrow> isl (h hist e c)"
    and "\<forall>hist. length hist = length (handlerCalls w) + 4 \<longrightarrow> h hist e c = Inr ()"
  shows "errorFile (files (snd (tryProcessing s t e c h r w))) = errorFile (files w) \<and>
         errorFile (files (executeEventHandler h s t c 0 e w)) = errorFile (files w) \<and>
         (\<exists>calls. handlerCalls (executeEventHandler h s t c 0 e w) = handlerCalls w @ calls \<and>
            length calls = 5 \<and> map hc_parentId calls = replicate 5 e) \<and>
         queueFiles (files (executeEventHandler h s t c 0 e w)) (s, t) =
           Some (q\<lparr>processedEvents := processedEvents q @
                    [\<lparr>pd_eventId = e, pd_tries = pg_tries (processingEvents q ! i) + 5,
                      pd_processedAt = clock w + 25000\<rparr>],
                  processingEvents := filter (\<lambda>v. pg_eventId v \<noteq> e) (processingEvents q)\<rparr>)"
proof -
  have "(0::nat) \<le> 0" and "(0::nat) + 4 < 5" by simp_all
  note run = loop_fails_then_succeeds [where h = h and e = e and c = c and m = 4,
      OF assms(3) assms(4) assms(1) assms(2) this]
  from run have calls: "\<exists>calls. handlerCalls (executeEventHandler h s t c 0 e w) =
      handlerCalls w @ calls \<and> length calls = 5 \<and> map hc_parentId calls = replicate 5 e"
    unfolding executeEventHandler_def by simp blast
  from run have queue: "queueFiles (files (executeEventHandler h s t c 0 e w)) (s, t) =
           Some (q\<lparr>processedEvents := processedEvents q @
                    [\<lparr>pd_eventId = e, pd_tries = pg_tries (processingEvents q ! i) + 5,
                      pd_processedAt = clock w + 25000\<rparr>],
                  processingEvents := filter (\<lambda>v. pg_eventId v \<noteq> e) (processingEvents q)\<rparr>)"
    unfolding executeEventHandler_def by simp
  have frame: "errorFile (files (executeEventHandler h s t c 0 e w)) = errorFile (files w)"
    using executeEventHandler_frame [of s t w h c 0 e] by (simp add: sameExceptQueue_def)
  from tryProcessing_errorFile frame calls queue show ?thesis by blast
qed

lemma failsFourTimes_fails:
  "\<forall>hist. length hist < length (handlerCalls pendingWorld) + 4 \<longrightarrow>
     isl (failsFourTimes hist ''e1'' ''{x:1}'')"
  by (simp add: failsFourTimes_def pendingWorld_calls)

lemma failsFourTimes_succeeds:
  "\<forall>hist. length hist = length (handlerCalls pendingWorld) + 4 \<longrightarrow>
     failsFourTimes hist ''e1'' ''{x:1}'' = Inr ()"
  by (simp add: failsFourTimes_def pendingWorld_calls)

theorem failed_attempts_write_no_error_record_witness:
  "queueFiles (files pendingWorld) (PAYMENT, ORDER_CREATED) = Some pendingQueue \<and>
   findIndex (\<lambda>v. pg_eventId v = ''e1'') (processingEvents pendingQueue) = Some 0 \<and>
   handlerCalls pendingWorld = [] \<and>
   errorFile (files (executeEventHandler failsFourTimes PAYMENT ORDER_CREATED ''{x:1}'' 0 ''e1''
       pendingWorld)) = None \<and>
   queueFiles (files (executeEventHandler failsFourTimes PAYMENT ORDER_CREATED ''{x:1}'' 0 ''e1''
       pendingWorld)) (PAYMENT, ORDER_CREATED) =
     Some (pendingQueue\<lparr>processedEvents :=
              [\<lparr>pd_eventId = ''e1'', pd_tries = 5, pd_processedAt = 25000\<rparr>],
            processingEvents := []\<rparr>)"
proof -
  note run = failed_attempts_write_no_error_record [where h = failsFourTimes and e = "''e1''" and
      c = "''{x:1}''" and r = True, OF pendingWorld_queue pendingWorld_index
      failsFourTimes_fails failsFourTimes_succeeds]
  from run have "errorFile (files (executeEventHandler failsFourTimes PAYMENT ORDER_CREATED
       ''{x:1}'' 0 ''e1'' pendingWorld)) = None"
    by (simp add: pendingWorld_no_errors)
  moreover from run have "queueFiles (files (executeEventHandler failsFourTimes PAYMENT
       ORDER_CREATED ''{x:1}'' 0 ''e1'' pendingWorld)) (PAYMENT, ORDER_CREATED) =
     Some (pendingQueue\<lparr>processedEvents :=
              [\<lparr>pd_eventId = ''e1'', pd_tries = 5, pd_processedAt = 25000\<rparr>],
            processingEvents := []\<rparr>)"
    by (simp add: pendingQueue_def pendingWorld_clock)
  ultimately show ?thesis
    using pendingWorld_queue pendingWorld_index pendingWorld_calls
    by blast
qed

text \<open>
  C7 on the scenario: after four failed attempts and a successful fifth the event is in
  \<open>processedEvents\<close> with \<open>tries = 5\<close>, as C7 says, and no error file
  exists, where C7 requires four error records. The source's comments ask for them
  (\<open>store the error in 'ErrorLog' and retry again\<close>), and the \<open>catch\<close> of
  \<open>executeEventHandler\<close> has an empty body.
\<close>

theorem four_failures_leave_no_error_record:
  "length (handlerCalls (executeEventHandler failsFourTimes PAYMENT ORDER_CREATED ''{x:1}'' 0
       ''e1'' pendingWorld)) = 5 \<and>
   queueFiles (files (executeEventHandler failsFourTimes PAYMENT ORDER_CREATED ''{x:1}'' 0 ''e1''
       pendingWorld)) (PAYMENT, ORDER_CREATED) =
     Some (pendingQueue\<lparr>processedEvents :=
              [\<lparr>pd_eventId = ''e1'', pd_tries = 5, pd_processedAt = 25000\<rparr>],
            processingEvents := []\<rparr>) \<and>
   errorFile (files (executeEventHandler failsFourTimes PAYMENT ORDER_CREATED ''{x:1}'' 0 ''e1''
       pendingWorld)) = None"
proof -
  let ?w = "executeEventHandler failsFourTimes PAYMENT ORDER_CREATED ''{x:1}'' 0 ''e1'' pendingWorld"
  have "(0::nat) \<le> 0" and "(0::nat) + 4 < 5" by simp_all
  note run = loop_fails_then_succeeds [where h = failsFourTimes and e = "''e1''" and
      c = "''{x:1}''" and m = 4, OF failsFourTimes_fails failsFourTimes_succeeds
      pendingWorld_queue pendingWorld_index this]
  from run have "length (handlerCalls ?w) = 5"
    unfolding executeEventHandler_def by (auto simp: pendingWorld_calls)
  moreover from run have "queueFiles (files ?w) (PAYMENT, ORDER_CREATED) =
     Some (pendingQueue\<lparr>processedEvents :=
              [\<lparr>pd_eventId = ''e1'', pd_tries = 5, pd_processedAt = 25000\<rparr>],
            processingEvents := []\<rparr>)"
    unfolding executeEventHandler_def by (simp add: pendingQueue_def pendingWorld_clock)
  moreover have "errorFile (files ?w) = None"
    using executeEventHandler_frame [of PAYMENT ORDER_CREATED pendingWorld failsFourTimes "''{x:1}''" 0 "''e1''"]
    by (simp add: sameExceptQueue_def pendingWorld_no_errors)
  ultimately show ?thesis by blast
qed

section \<open>The order of one attempt, and the delay before it\<close>

lemma incrementTries_handlerCalls:
  "handlerCalls (snd (incrementTries s t e w)) = handlerCalls w"
  by (simp add: incrementTries_def Let_def split: option.splits)

lemma eventAcknowledged_handlerCalls:
  "handlerCalls (snd (eventAcknowledged s t e w)) = handlerCalls w"
  by (simp add: eventAcknowledged_def Let_def split: option.splits prod.splits list.splits)

lemma attempt_order:
  assumes "fst (incrementTries s t e (if r then setTimeout5000 w else w)) = Inr ()"
  shows "handlerCalls (snd (tryProcessing s t e c h r w)) = handlerCalls w @
           [\<lparr>hc_subscriber = s, hc_topic = t, hc_parentId = e, hc_content = c, hc_isRetry = r,
             hc_at = clock (snd (incrementTries s t e (if r then setTimeout5000 w else w))),
             hc_files = files (snd (incrementTries s t e (if r then setTimeout5000 w else w)))\<rparr>]"
    and "h (handlerCalls w) e c = Inr () \<Longrightarrow>
         tryProcessing s t e c h r w =
           eventAcknowledged s t e
             ((snd (incrementTries s t e (if r then setTimeout5000 w else w)))
                \<lparr>handlerCalls := handlerCalls w @
                  [\<lparr>hc_subscriber = s, hc_topic = t, hc_parentId = e, hc_content = c, hc_isRetry = r,
                    hc_at = clock (snd (incrementTries s t e (if r then setTimeout5000 w else w))),
                    hc_files = files (snd (incrementTries s t e (if r then setTimeout5000 w else w)))\<rparr>]\<rparr>)"
proof -
  let ?w0 = "if r then setTimeout5000 w else w"
  obtain res w1 where inc: "incrementTries s t e ?w0 = (res, w1)"
    by (cases "incrementTries s t e ?w0")
  with assms have res: "res = Inr ()" by simp
  have calls1: "handlerCalls w1 = handlerCalls w"
    using incrementTries_handlerCalls [of s t e ?w0] inc by (simp split: if_splits)
  have body: "tryProcessing s t e c h r w = attemptBody s t e c h r ?w0"
    by (simp add: tryProcessing_def)
  show "handlerCalls (snd (tryProcessing s t e c h r w)) = handlerCalls w @
           [\<lparr>hc_subscriber = s, hc_topic = t, hc_parentId = e, hc_content = c, hc_isRetry = r,
             hc_at = clock (snd (incrementTries s t e ?w0)),
             hc_files = files (snd (incrementTries s t e ?w0))\<rparr>]"
    unfolding body
    by (simp add: attemptBody_def inc res calls1 Let_def eventAcknowledged_handlerCalls
        split: sum.splits)
  show "tryProcessing s t e c h r w =
           eventAcknowledged s t e
             ((snd (incrementTries s t e ?w0))
                \<lparr>handlerCalls := handlerCalls w @
                  [\<lparr>hc_subscriber = s, hc_topic = t, hc_parentId = e, hc_content = c, hc_isRetry = r,
                    hc_at = clock (snd (incrementTries s t e ?w0)),
                    hc_files = files (snd (incrementTries s t e ?w0))\<rparr>]\<rparr>)"
    if "h (handlerCalls w) e c = Inr ()"
    unfolding body using that
    by (simp add: attemptBody_def inc res calls1 Let_def)
qed


text \<open>
  A delivery with nothing else in flight. In every attempt in which
  \<open>incrementTries\<close> succeeds, the handler is called once, and the files it finds
  are the files that \<open>incrementTries\<close> has written; when the handler resolves,
  the attempt continues with \<open>eventAcknowledged\<close> on that state. (When
  \<open>incrementTries\<close> fails the handler is not called.) Consequently, for a
  pending event with \<open>tries = 0\<close> whose handler resolves at its first call,
  \<open>executeEventHandler\<close> leaves the event in \<open>processedEvents\<close> with
  \<open>tries = 1\<close> and no entry with its id in \<open>processingEvents\<close>, and the
  one handler call it made saw the entry with \<open>tries = 1\<close> in the queue file.
  Deliveries that overlap do not keep this, see the section on them.
\<close>

theorem tries_incremented_before_handler:
  "(fst (incrementTries s t e (if r then setTimeout5000 w else w)) = Inr () \<longrightarrow>
      (\<exists>call. hc_files call = files (snd (incrementTries s t e (if r then setTimeout5000 w else w))) \<and>
         hc_parentId call = e \<and>
         handlerCalls (snd (tryProcessing s t e c h r w)) = handlerCalls w @ [call] \<and>
         (h (handlerCalls w) e c = Inr () \<longrightarrow>
            tryProcessing s t e c h r w =
              eventAcknowledged s t e
                ((snd (incrementTries s t e (if r then setTimeout5000 w else w)))
                   \<lparr>handlerCalls := handlerCalls w @ [call]\<rparr>)))) \<and>
   (queueFiles (files w) (s, t) = Some q \<and>
    findIndex (\<lambda>v. pg_eventId v = e) (processingEvents q) = Some i \<and>
    pg_tries (processingEvents q ! i) = 0 \<and>
    h (handlerCalls w) e c = Inr () \<longrightarrow>
      queueFiles (files (executeEventHandler h s t c 0 e w)) (s, t) =
        Some (q\<lparr>processedEvents := processedEvents q @
                 [\<lparr>pd_eventId = e, pd_tries = 1, pd_processedAt = clock w + 5000\<rparr>],
               processingEvents := filter (\<lambda>v. pg_eventId v \<noteq> e) (processingEvents q)\<rparr>) \<and>
      (\<exists>call. handlerCalls (executeEventHandler h s t c 0 e w) = handlerCalls w @ [call] \<and>
         queueFiles (hc_files call) (s, t) =
           Some (q\<lparr>processingEvents := (processingEvents q)
             [i := (processingEvents q ! i)\<lparr>pg_tries := 1\<rparr>]\<rparr>)))"
proof (intro conjI impI)
  let ?w1 = "snd (incrementTries s t e (if r then setTimeout5000 w else w))"
  let ?call = "\<lparr>hc_subscriber = s, hc_topic = t, hc_parentId = e, hc_content = c, hc_isRetry = r,
      hc_at = clock ?w1, hc_files = files ?w1\<rparr>"
  assume inc: "fst (incrementTries s t e (if r then setTimeout5000 w else w)) = Inr ()"
  note order = attempt_order [where c = c and h = h, OF inc]
  have "hc_files ?call = files ?w1" and "hc_parentId ?call = e" by simp_all
  moreover have "handlerCalls (snd (tryProcessing s t e c h r w)) = handlerCalls w @ [?call]"
    by (rule order(1))
  moreover have "h (handlerCalls w) e c = Inr () \<longrightarrow>
      tryProcessing s t e c h r w =
        eventAcknowledged s t e (?w1\<lparr>handlerCalls := handlerCalls w @ [?call]\<rparr>)"
    using order(2) by blast
  ultimately show "\<exists>call. hc_files call = files ?w1 \<and> hc_parentId call = e \<and>
         handlerCalls (snd (tryProcessing s t e c h r w)) = handlerCalls w @ [call] \<and>
         (h (handlerCalls w) e c = Inr () \<longrightarrow>
            tryProcessing s t e c h r w =
              eventAcknowledged s t e (?w1\<lparr>handlerCalls := handlerCalls w @ [call]\<rparr>))"
    by blast
next
  assume hyp: "queueFiles (files w) (s, t) = Some q \<and>
    findIndex (\<lambda>v. pg_eventId v = e) (processingEvents q) = Some i \<and>
    pg_tries (processingEvents q ! i) = 0 \<and>
    h (handlerCalls w) e c = Inr ()"
  then have q: "queueFiles (files w) (s, t) = Some q"
    and i: "findIndex (\<lambda>v. pg_eventId v = e) (processingEvents q) = Some i"
    and zero: "pg_tries (processingEvents q ! i) = 0"
    and ok: "h (handlerCalls w) e c = Inr ()"
    by simp_all
  from attempt_succeeds [of w s t q e i h c, OF q i ok] obtain w1 where
    tp: "tryProcessing s t e c h True w = (Inr (), w1)"
    and q1: "queueFiles (files w1) (s, t) = Some (q\<lparr>
             processedEvents := processedEvents q @
               [\<lparr>pd_eventId = e, pd_tries = pg_tries (processingEvents q ! i) + 1,
                 pd_processedAt = clock w + 5000\<rparr>],
             processingEvents := filter (\<lambda>v. pg_eventId v \<noteq> e) (processingEvents q)\<rparr>)"
    and calls1: "handlerCalls w1 = handlerCalls w @
             [\<lparr>hc_subscriber = s, hc_topic = t, hc_parentId = e, hc_content = c, hc_isRetry = True,
               hc_at = clock w + 5000,
               hc_files = (files w)\<lparr>queueFiles := (queueFiles (files w))((s, t) \<mapsto>
                 q\<lparr>processingEvents := (processingEvents q)
                   [i := (processingEvents q ! i)\<lparr>pg_tries := pg_tries (processingEvents q ! i) + 1\<rparr>]\<rparr>)\<rparr>\<rparr>]"
    by blast
  have run: "executeEventHandler h s t c 0 e w = w1"
    unfolding executeEventHandler_def using tp by (intro loop_step_succeeds) simp_all
  show "queueFiles (files (executeEventHandler h s t c 0 e w)) (s, t) =
        Some (q\<lparr>processedEvents := processedEvents q @
                 [\<lparr>pd_eventId = e, pd_tries = 1, pd_processedAt = clock w + 5000\<rparr>],
               processingEvents := filter (\<lambda>v. pg_eventId v \<noteq> e) (processingEvents q)\<rparr>)"
    using q1 zero by (simp add: run)
  show "\<exists>call. handlerCalls (executeEventHandler h s t c 0 e w) = handlerCalls w @ [call] \<and>
         queueFiles (hc_files call) (s, t) =
           Some (q\<lparr>processingEvents := (processingEvents q)
             [i := (processingEvents q ! i)\<lparr>pg_tries := 1\<rparr>]\<rparr>)"
    using zero by (simp add: run calls1)
qed


lemma alwaysSucceeds_first: "alwaysSucceeds (handlerCalls pendingWorld) ''e1'' ''{x:1}'' = Inr ()"
  by (simp add: alwaysSucceeds_def)

lemma pendingWorld_fresh_entry: "pg_tries (processingEvents pendingQueue ! 0) = 0"
  by (simp add: pendingQueue_def)

lemma pendingWorld_increment:
  "fst (incrementTries PAYMENT ORDER_CREATED ''e1'' (setTimeout5000 pendingWorld)) = Inr ()"
proof -
  have "queueFiles (files (setTimeout5000 pendingWorld)) (PAYMENT, ORDER_CREATED) = Some pendingQueue"
    by (simp add: pendingWorld_queue)
  from incrementTries_found [OF this pendingWorld_index] show ?thesis by simp
qed

theorem tries_incremented_before_handler_witness:
  "fst (incrementTries PAYMENT ORDER_CREATED ''e1'' (setTimeout5000 pendingWorld)) = Inr () \<and>
   alwaysSucceeds (handlerCalls pendingWorld) ''e1'' ''{x:1}'' = Inr () \<and>
   queueFiles (files pendingWorld) (PAYMENT, ORDER_CREATED) = Some pendingQueue \<and>
   findIndex (\<lambda>v. pg_eventId v = ''e1'') (processingEvents pendingQueue) = Some 0 \<and>
   pg_tries (processingEvents pendingQueue ! 0) = 0 \<and>
   map hc_parentId (handlerCalls (snd (tryProcessing PAYMENT ORDER_CREATED ''e1'' ''{x:1}''
       alwaysSucceeds True pendingWorld))) = [''e1''] \<and>
   map hc_files (handlerCalls (snd (tryProcessing PAYMENT ORDER_CREATED ''e1'' ''{x:1}''
       alwaysSucceeds True pendingWorld))) =
     [files (snd (incrementTries PAYMENT ORDER_CREATED ''e1'' (setTimeout5000 pendingWorld)))] \<and>
   queueFiles (files (executeEventHandler alwaysSucceeds PAYMENT ORDER_CREATED ''{x:1}'' 0 ''e1''
       pendingWorld)) (PAYMENT, ORDER_CREATED) =
     Some (pendingQueue\<lparr>processedEvents :=
              [\<lparr>pd_eventId = ''e1'', pd_tries = 1, pd_processedAt = 5000\<rparr>],
            processingEvents := []\<rparr>)"
proof -
  note inst = tries_incremented_before_handler [where s = PAYMENT and t = ORDER_CREATED and
      e = "''e1''" and c = "''{x:1}''" and h = alwaysSucceeds and r = True and w = pendingWorld and
      q = pendingQueue and i = 0]
  from inst pendingWorld_increment obtain call where call:
    "hc_files call = files (snd (incrementTries PAYMENT ORDER_CREATED ''e1'' (setTimeout5000 pendingWorld)))"
    "hc_parentId call = ''e1''"
    "handlerCalls (snd (tryProcessing PAYMENT ORDER_CREATED ''e1'' ''{x:1}'' alwaysSucceeds True
        pendingWorld)) = handlerCalls pendingWorld @ [call]"
    by auto
  from call have ordered:
    "map hc_parentId (handlerCalls (snd (tryProcessing PAYMENT ORDER_CREATED ''e1'' ''{x:1}''
       alwaysSucceeds True pendingWorld))) = [''e1'']"
    "map hc_files (handlerCalls (snd (tryProcessing PAYMENT ORDER_CREATED ''e1'' ''{x:1}''
       alwaysSucceeds True pendingWorld))) =
     [files (snd (incrementTries PAYMENT ORDER_CREATED ''e1'' (setTimeout5000 pendingWorld)))]"
    by (simp_all add: pendingWorld_calls)
  from inst pendingWorld_queue pendingWorld_index pendingWorld_fresh_entry alwaysSucceeds_first
  have "queueFiles (files (executeEventHandler alwaysSucceeds PAYMENT ORDER_CREATED ''{x:1}'' 0
       ''e1'' pendingWorld)) (PAYMENT, ORDER_CREATED) =
     Some (pendingQueue\<lparr>processedEvents := processedEvents pendingQueue @
              [\<lparr>pd_eventId = ''e1'', pd_tries = 1, pd_processedAt = clock pendingWorld + 5000\<rparr>],
            processingEvents := filter (\<lambda>v. pg_eventId v \<noteq> ''e1'') (processingEvents pendingQueue)\<rparr>)"
    by blast
  then have final: "queueFiles (files (executeEventHandler alwaysSucceeds PAYMENT ORDER_CREATED
       ''{x:1}'' 0 ''e1'' pendingWorld)) (PAYMENT, ORDER_CREATED) =
     Some (pendingQueue\<lparr>processedEvents :=
              [\<lparr>pd_eventId = ''e1'', pd_tries = 1, pd_processedAt = 5000\<rparr>],
            processingEvents := []\<rparr>)"
    by (simp add: pendingQueue_def pendingWorld_clock)
  from pendingWorld_increment alwaysSucceeds_first pendingWorld_queue pendingWorld_index
    pendingWorld_fresh_entry ordered final
  show ?thesis by blast
qed

text \<open>
  C4 at a new event whose handler resolves at once: the one call of the handler is made
  through the \<open>setTimeout\<close> branch (\<open>isRetry\<close> is true), 5000 ms after the
  engine was entered at clock 0. \<open>triesCount\<close> has been incremented when it is
  compared with \<open>tries\<close>, so the comparison never yields false.
\<close>

theorem first_attempt_is_delayed:
  "clock pendingWorld = 0 \<and>
   map hc_parentId (handlerCalls (executeEventHandler alwaysSucceeds PAYMENT ORDER_CREATED
       ''{x:1}'' 0 ''e1'' pendingWorld)) = [''e1''] \<and>
   map hc_isRetry (handlerCalls (executeEventHandler alwaysSucceeds PAYMENT ORDER_CREATED
       ''{x:1}'' 0 ''e1'' pendingWorld)) = [True] \<and>
   map hc_at (handlerCalls (executeEventHandler alwaysSucceeds PAYMENT ORDER_CREATED
       ''{x:1}'' 0 ''e1'' pendingWorld)) = [5000]"
proof -
  from attempt_succeeds [of pendingWorld PAYMENT ORDER_CREATED pendingQueue "''e1''" 0
      alwaysSucceeds "''{x:1}''", OF pendingWorld_queue pendingWorld_index alwaysSucceeds_first]
  obtain w1 where
    tp: "tryProcessing PAYMENT ORDER_CREATED ''e1'' ''{x:1}'' alwaysSucceeds True pendingWorld =
      (Inr (), w1)"
    and calls: "map hc_parentId (handlerCalls w1) = [''e1'']"
      "map hc_isRetry (handlerCalls w1) = [True]" "map hc_at (handlerCalls w1) = [5000]"
    by (auto simp: pendingWorld_calls pendingWorld_clock)
  have "executeEventHandler alwaysSucceeds PAYMENT ORDER_CREATED ''{x:1}'' 0 ''e1'' pendingWorld = w1"
    unfolding executeEventHandler_def using tp by (intro loop_step_succeeds) simp_all
  with calls pendingWorld_clock show ?thesis by simp
qed


lemma incrementTries_clock: "clock (snd (incrementTries s t e w)) = clock w"
  by (simp add: incrementTries_def Let_def split: option.splits)

lemma eventAcknowledged_clock: "clock (snd (eventAcknowledged s t e w)) = clock w"
  by (simp add: eventAcknowledged_def Let_def split: option.splits prod.splits list.splits)

lemma attemptBody_clock: "clock (snd (attemptBody s t e c h r w)) = clock w"
proof (cases "incrementTries s t e w")
  case (Pair res w1)
  with incrementTries_clock [of s t e w] have "clock w1 = clock w" by simp
  with Pair show ?thesis
    by (cases res) (simp_all add: attemptBody_def Let_def eventAcknowledged_clock split: sum.splits)
qed

lemma tryProcessing_clock:
  "clock (snd (tryProcessing s t e c h r w)) = clock w + (if r then 5000 else 0)"
  by (simp add: tryProcessing_def attemptBody_clock)

lemma tryProcessing_calls:
  "\<exists>calls. handlerCalls (snd (tryProcessing s t e c h r w)) = handlerCalls w @ calls \<and>
     (\<forall>call \<in> set calls. hc_isRetry call = r \<and>
        hc_at call = clock w + (if r then 5000 else 0))"
proof (cases "fst (incrementTries s t e (if r then setTimeout5000 w else w))")
  case (Inl err)
  then have "incrementTries s t e (if r then setTimeout5000 w else w) =
      (Inl err, snd (incrementTries s t e (if r then setTimeout5000 w else w)))"
    by (metis prod.collapse)
  from tryProcessing_incrementTries_fails [OF this]
  have "handlerCalls (snd (tryProcessing s t e c h r w)) = handlerCalls w"
    by (simp add: incrementTries_handlerCalls)
  then show ?thesis by simp
next
  case (Inr u)
  then have "fst (incrementTries s t e (if r then setTimeout5000 w else w)) = Inr ()" by simp
  from attempt_order(1) [where c = c and h = h, OF this] show ?thesis
    by (simp add: incrementTries_clock)
qed

text \<open>
  The same for every event, handler and world: each handler call that
  \<open>executeEventHandler\<close> makes is a delayed one.
\<close>

lemma loop_calls_delayed:
  "tries \<le> k \<Longrightarrow>
   \<exists>calls. handlerCalls (executeEventHandler_loop h s t c tries e acked k w) =
       handlerCalls w @ calls \<and>
     (\<forall>call \<in> set calls. hc_isRetry call \<and> clock w + 5000 \<le> hc_at call)"
proof (induction "5 - k" arbitrary: k acked w)
  case 0
  then show ?case by (simp add: loop_exhausted)
next
  case (Suc n)
  then have k: "k < 5" "Suc k \<noteq> tries" and n: "n = 5 - Suc k" and le: "tries \<le> Suc k"
    by simp_all
  show ?case
  proof (cases acked)
    case True
    then show ?thesis by (simp add: loop_acked)
  next
    case False
    obtain res w1 where tp: "tryProcessing s t e c h True w = (res, w1)"
      by (cases "tryProcessing s t e c h True w")
    from tryProcessing_calls [of s t e c h True w] tp obtain calls1 where calls1:
      "handlerCalls w1 = handlerCalls w @ calls1"
      "\<forall>call \<in> set calls1. hc_isRetry call \<and> hc_at call = clock w + 5000"
      by auto
    show ?thesis
    proof (cases res)
      case (Inl err)
      with tp k have step: "executeEventHandler_loop h s t c tries e False k w =
          executeEventHandler_loop h s t c tries e False (Suc k) w1"
        by (intro loop_step_fails) simp_all
      have clock1: "clock w1 = clock w + 5000"
        using tryProcessing_clock [of s t e c h True w] tp by simp
      from Suc.hyps(1) [OF n le, of False w1] obtain calls where calls:
        "handlerCalls (executeEventHandler_loop h s t c tries e False (Suc k) w1) =
           handlerCalls w1 @ calls"
        "\<forall>call \<in> set calls. hc_isRetry call \<and> clock w1 + 5000 \<le> hc_at call"
        by blast
      have "handlerCalls (executeEventHandler_loop h s t c tries e acked k w) =
          handlerCalls w @ (calls1 @ calls)"
        using False by (simp add: step calls calls1)
      moreover have "\<forall>call \<in> set (calls1 @ calls). hc_isRetry call \<and> clock w + 5000 \<le> hc_at call"
        using calls1(2) calls(2) by (auto simp: clock1)
      ultimately show ?thesis by blast
    next
      case (Inr u)
      with tp k have "executeEventHandler_loop h s t c tries e False k w = w1"
        by (intro loop_step_succeeds) simp_all
      with False calls1 show ?thesis by auto
    qed
  qed
qed

lemma executeEventHandler_calls_delayed:
  "\<exists>calls. handlerCalls (executeEventHandler h s t c tries e w) = handlerCalls w @ calls \<and>
     (\<forall>call \<in> set calls. hc_isRetry call \<and> clock w + 5000 \<le> hc_at call)"
  unfolding executeEventHandler_def by (rule loop_calls_delayed) simp

section \<open>Deliveries that overlap\<close>

lemma backlogDelivered_calls:
  "map (\<lambda>call. (hc_parentId call, hc_at call)) (handlerCalls backlogDelivered) =
     [(''e1'', 5000), (''e2'', 5000)]"
  by code_simp

lemma backlogDelivered_seen:
  "map (\<lambda>call. queueFiles (hc_files call) (PAYMENT, ORDER_CREATED)) (handlerCalls backlogDelivered) =
     [Some \<lparr>q_subscriber = PAYMENT, q_topic = ORDER_CREATED, processedEvents = [],
        processingEvents = [\<lparr>pg_eventId = ''e1'', pg_content = ''{x:1}'', pg_tries = 0\<rparr>,
                            \<lparr>pg_eventId = ''e2'', pg_content = ''{x:2}'', pg_tries = 1\<rparr>]\<rparr>,
      Some \<lparr>q_subscriber = PAYMENT, q_topic = ORDER_CREATED, processedEvents = [],
        processingEvents = [\<lparr>pg_eventId = ''e1'', pg_content = ''{x:1}'', pg_tries = 0\<rparr>,
                            \<lparr>pg_eventId = ''e2'', pg_content = ''{x:2}'', pg_tries = 1\<rparr>]\<rparr>]"
  by code_simp

lemma backlogDelivered_phases: "map dv_phase (inFlight backlogDelivered) = [Finished, Finished]"
  by code_simp

lemma backlogDelivered_queue:
  "queueFiles (files backlogDelivered) (PAYMENT, ORDER_CREATED) =
     Some \<lparr>q_subscriber = PAYMENT, q_topic = ORDER_CREATED,
       processedEvents = [\<lparr>pd_eventId = ''e2'', pd_tries = 1, pd_processedAt = 5000\<rparr>],
       processingEvents = [\<lparr>pg_eventId = ''e1'', pg_content = ''{x:1}'', pg_tries = 0\<rparr>]\<rparr>"
  by code_simp

text \<open>
  C5 on a backlog of two events. \<open>PAYMENT\<close> subscribes to a topic to which
  \<open>e1\<close> and \<open>e2\<close> were published before, with a handler that resolves at
  its first call. The subscribing closure starts the two deliveries together
  (\<open>Promise.all\<close> over the \<open>map\<close>), and nothing synchronises their
  read-modify-write cycles on the queue file. When the awaits complete in the order in
  which they were begun, both deliveries read the queue file before either of them
  writes it, so the write of \<open>incrementTries\<close> for \<open>e2\<close> replaces the one
  for \<open>e1\<close>, and the write of \<open>eventAcknowledged\<close> for \<open>e2\<close> replaces
  the one for \<open>e1\<close>. The handler is called once for each event, at 5000 ms, and
  resolves. When it is called for \<open>e1\<close>, the entry of \<open>e1\<close> in the queue
  file has \<open>tries = 0\<close>; and when both deliveries have finished, \<open>e1\<close> is
  still in \<open>processingEvents\<close>, with \<open>tries = 0\<close>, and not in
  \<open>processedEvents\<close>, where C5 requires it with \<open>tries = 1\<close>. The source's
  comments say what C5 says (\<open>Just before 'eventHandler' is executed internally,
  'tries' is incremented\<close>, \<open>the event is acknowledged and the corresponding event
  in 'processingEvents' is moved to "processedEvents"\<close>, both marked done) and name
  what is missing (\<open>need to lock files when writing to it, in order to prevent
  overwriting\<close>).
\<close>

theorem overlapping_deliveries_lose_updates:
  "alwaysSucceeds [] ''e1'' ''{x:1}'' = Inr () \<and>
   map (\<lambda>call. (hc_parentId call, hc_at call)) (handlerCalls backlogDelivered) =
     [(''e1'', 5000), (''e2'', 5000)] \<and>
   map (\<lambda>call. queueFiles (hc_files call) (PAYMENT, ORDER_CREATED)) (handlerCalls backlogDelivered) =
     [Some \<lparr>q_subscriber = PAYMENT, q_topic = ORDER_CREATED, processedEvents = [],
        processingEvents = [\<lparr>pg_eventId = ''e1'', pg_content = ''{x:1}'', pg_tries = 0\<rparr>,
                            \<lparr>pg_eventId = ''e2'', pg_content = ''{x:2}'', pg_tries = 1\<rparr>]\<rparr>,
      Some \<lparr>q_subscriber = PAYMENT, q_topic = ORDER_CREATED, processedEvents = [],
        processingEvents = [\<lparr>pg_eventId = ''e1'', pg_content = ''{x:1}'', pg_tries = 0\<rparr>,
                            \<lparr>pg_eventId = ''e2'', pg_content = ''{x:2}'', pg_tries = 1\<rparr>]\<rparr>] \<and>
   map dv_phase (inFlight backlogDelivered) = [Finished, Finished] \<and>
   queueFiles (files backlogDelivered) (PAYMENT, ORDER_CREATED) =
     Some \<lparr>q_subscriber = PAYMENT, q_topic = ORDER_CREATED,
       processedEvents = [\<lparr>pd_eventId = ''e2'', pd_tries = 1, pd_processedAt = 5000\<rparr>],
       processingEvents = [\<lparr>pg_eventId = ''e1'', pg_content = ''{x:1}'', pg_tries = 0\<rparr>]\<rparr>"
  using backlogDelivered_calls backlogDelivered_seen backlogDelivered_phases backlogDelivered_queue
  by (simp add: alwaysSucceeds_def)

section \<open>Exclusivity of the two arrays of a queue\<close>

lemma allExclusive_initialWorld: "allExclusive initialWorld"
  by (simp add: allExclusive_def initialWorld_def emptyFiles_def)

lemma allExclusive_writeJSON_queue:
  "allExclusive w \<Longrightarrow> exclusive q \<Longrightarrow> allExclusive (writeJSON_queue s t q w)"
  by (simp add: allExclusive_def writeJSON_queue_def)

lemma allExclusive_queue:
  "allExclusive w \<Longrightarrow> queueFiles (files w) k = Some q \<Longrightarrow> exclusive q"
  unfolding allExclusive_def by blast

lemma exclusive_bump:
  "exclusive q \<Longrightarrow> exclusive (q\<lparr>processingEvents :=
     (processingEvents q)[i := (processingEvents q ! i)\<lparr>pg_tries := n\<rparr>]\<rparr>)"
proof -
  assume ex: "exclusive q"
  have "set (map pg_eventId ((processingEvents q)[i := (processingEvents q ! i)\<lparr>pg_tries := n\<rparr>])) =
      set (map pg_eventId (processingEvents q))"
    by (simp only: ids_after_bump)
  with ex show ?thesis by (simp add: exclusive_def)
qed

lemma exclusive_acknowledge:
  "exclusive q \<Longrightarrow> exclusive (q\<lparr>processedEvents := processedEvents q @
       [\<lparr>pd_eventId = e, pd_tries = n, pd_processedAt = at\<rparr>],
     processingEvents := filter (\<lambda>v. pg_eventId v \<noteq> e) (processingEvents q)\<rparr>)"
  by (auto simp: exclusive_def)

lemma exclusive_push:
  "exclusive q \<Longrightarrow> e \<notin> pd_eventId ` set (processedEvents q) \<Longrightarrow>
   exclusive (q\<lparr>processingEvents := processingEvents q @
     [\<lparr>pg_eventId = e, pg_content = c, pg_tries = 0\<rparr>]\<rparr>)"
  by (auto simp: exclusive_def)

lemma incrementTries_exclusive:
  assumes "allExclusive w"
  shows "allExclusive (snd (incrementTries s t e w))"
proof (cases "queueFiles (files w) (s, t)")
  case None
  with assms show ?thesis by (simp add: incrementTries_missing)
next
  case (Some q)
  show ?thesis
  proof (cases "findIndex (\<lambda>v. pg_eventId v = e) (processingEvents q)")
    case None
    with Some assms show ?thesis
      by (simp add: incrementTries_def readJSON_queue_def)
  next
    case (Some i)
    from allExclusive_queue [OF assms \<open>queueFiles (files w) (s, t) = Some q\<close>]
    have "exclusive q" .
    then show ?thesis
      using assms
      by (simp add: incrementTries_found [OF \<open>queueFiles (files w) (s, t) = Some q\<close> Some]
          allExclusive_writeJSON_queue exclusive_bump)
  qed
qed

lemma eventAcknowledged_exclusive:
  assumes "allExclusive w"
  shows "allExclusive (snd (eventAcknowledged s t e w))"
proof (cases "queueFiles (files w) (s, t)")
  case None
  with assms show ?thesis by (simp add: eventAcknowledged_missing)
next
  case (Some q)
  show ?thesis
  proof (cases "findIndex (\<lambda>v. pg_eventId v = e) (processingEvents q)")
    case None
    with Some assms show ?thesis
      by (simp add: eventAcknowledged_def readJSON_queue_def)
  next
    case (Some i)
    from allExclusive_queue [OF assms \<open>queueFiles (files w) (s, t) = Some q\<close>]
    have "exclusive q" .
    then show ?thesis
      using assms
      by (simp add: eventAcknowledged_found [OF \<open>queueFiles (files w) (s, t) = Some q\<close> Some]
          allExclusive_writeJSON_queue exclusive_acknowledge)
  qed
qed

lemma attemptBody_exclusive:
  assumes "allExclusive w"
  shows "allExclusive (snd (attemptBody s t e c h r w))"
proof (cases "incrementTries s t e w")
  case (Pair res w1)
  with incrementTries_exclusive [OF assms, of s t e] have e1: "allExclusive w1" by simp
  show ?thesis
  proof (cases res)
    case (Inl err)
    with Pair e1 show ?thesis by (simp add: attemptBody_def)
  next
    case (Inr u)
    let ?w2 = "w1\<lparr>handlerCalls := handlerCalls w1 @
      [\<lparr>hc_subscriber = s, hc_topic = t, hc_parentId = e, hc_content = c, hc_isRetry = r,
        hc_at = clock w1, hc_files = files w1\<rparr>]\<rparr>"
    have e2: "allExclusive ?w2"
      using e1 by (simp add: allExclusive_def)
    from eventAcknowledged_exclusive [OF e2] have e3: "allExclusive (snd (eventAcknowledged s t e ?w2))" .
    show ?thesis
      using Pair Inr e2 e3 by (simp add: attemptBody_def Let_def split: sum.splits)
  qed
qed

lemma tryProcessing_exclusive:
  assumes "allExclusive w"
  shows "allExclusive (snd (tryProcessing s t e c h r w))"
proof -
  have "allExclusive (setTimeout5000 w)"
    using assms by (simp add: allExclusive_def)
  with assms show ?thesis
    by (simp add: tryProcessing_def attemptBody_exclusive)
qed

lemma loop_exclusive:
  "allExclusive w \<Longrightarrow> allExclusive (executeEventHandler_loop h s t c tries e acked k w)"
proof (induction "5 - k" arbitrary: k acked w)
  case 0
  then show ?case by (simp add: loop_exhausted)
next
  case (Suc n)
  then have k: "k < 5" and n: "n = 5 - Suc k" by simp_all
  show ?case
  proof (cases acked)
    case True
    with Suc.prems show ?thesis by (simp add: loop_acked)
  next
    case False
    obtain res w1 where tp: "tryProcessing s t e c h (Suc k \<noteq> tries) w = (res, w1)"
      by (cases "tryProcessing s t e c h (Suc k \<noteq> tries) w")
    with tryProcessing_exclusive [OF Suc.prems, of s t e c h "Suc k \<noteq> tries"]
    have e1: "allExclusive w1" by simp
    show ?thesis
    proof (cases res)
      case (Inl err)
      with tp k have "executeEventHandler_loop h s t c tries e False k w =
          executeEventHandler_loop h s t c tries e False (Suc k) w1"
        by (intro loop_step_fails) simp_all
      with False Suc.hyps(1) [OF n e1, of False] show ?thesis by simp
    next
      case (Inr u)
      with tp k have "executeEventHandler_loop h s t c tries e False k w = w1"
        by (intro loop_step_succeeds) simp_all
      with False e1 show ?thesis by simp
    qed
  qed
qed

lemma executeEventHandler_exclusive:
  "allExclusive w \<Longrightarrow> allExclusive (executeEventHandler h s t c tries e w)"
  by (simp add: executeEventHandler_def loop_exclusive)

lemma initializeQueue_exclusive:
  "allExclusive w \<Longrightarrow> allExclusive (snd (initializeQueue s t w))"
  by (auto simp: initializeQueue_def readJSON_queue_def Let_def exclusive_def
      intro!: allExclusive_writeJSON_queue split: option.splits)

lemma registerTopic_files: "files (snd (registerTopic s t w)) = files w"
  by (simp add: registerTopic_def Let_def split: option.splits)

lemma subscriberInitializer_files: "files (snd (subscriberInitializer s w)) = files w"
  by (simp add: subscriberInitializer_def split: option.splits)

lemma persistEvent_queueFiles: "queueFiles (files (persistEvent e t c p w)) = queueFiles (files w)"
  by (simp add: persistEvent_def writeJSON_log_def Let_def)

lemma persistEvent_exclusive: "allExclusive w \<Longrightarrow> allExclusive (persistEvent e t c p w)"
  by (simp add: allExclusive_def persistEvent_queueFiles)

lemma persistEvent_unusedId: "unusedId e w \<Longrightarrow> unusedId e (persistEvent e' t c p w)"
  by (simp add: unusedId_def persistEvent_queueFiles)

text \<open>The fan-out needs less than a new id: an id that no queue has processed.\<close>

lemma pushToQueue_exclusive:
  assumes "allExclusive w"
    and "\<forall>k q. queueFiles (files w) k = Some q \<longrightarrow> e \<notin> pd_eventId ` set (processedEvents q)"
  shows "allExclusive (pushToQueue e t c a w) \<and>
         (\<forall>k q. queueFiles (files (pushToQueue e t c a w)) k = Some q \<longrightarrow>
            e \<notin> pd_eventId ` set (processedEvents q))"
proof (cases "queueFiles (files w) (a, t)")
  case None
  with assms show ?thesis by (simp add: pushToQueue_def readJSON_queue_def)
next
  case (Some logs)
  from allExclusive_queue [OF assms(1) Some] have ex: "exclusive logs" .
  from assms(2) Some have np: "e \<notin> pd_eventId ` set (processedEvents logs)" by blast
  let ?logs = "logs\<lparr>processingEvents := processingEvents logs @
      [\<lparr>pg_eventId = e, pg_content = c, pg_tries = 0\<rparr>]\<rparr>"
  have push: "pushToQueue e t c a w = writeJSON_queue a t ?logs w"
    using Some by (simp add: pushToQueue_def readJSON_queue_def)
  have "allExclusive (writeJSON_queue a t ?logs w)"
    using assms(1) exclusive_push [OF ex np] by (rule allExclusive_writeJSON_queue)
  moreover have "\<forall>k q. queueFiles (files (writeJSON_queue a t ?logs w)) k = Some q \<longrightarrow>
      e \<notin> pd_eventId ` set (processedEvents q)"
    using assms(2) np by (auto simp: writeJSON_queue_def)
  ultimately show ?thesis by (simp add: push)
qed

lemma fold_pushToQueue_exclusive:
  "allExclusive w \<Longrightarrow>
   \<forall>k q. queueFiles (files w) k = Some q \<longrightarrow> e \<notin> pd_eventId ` set (processedEvents q) \<Longrightarrow>
   allExclusive (fold (pushToQueue e t c) subs w)"
proof (induction subs arbitrary: w)
  case Nil
  then show ?case by simp
next
  case (Cons a subs)
  from pushToQueue_exclusive [OF Cons.prems, of t c a]
  have "allExclusive (pushToQueue e t c a w)"
    and "\<forall>k q. queueFiles (files (pushToQueue e t c a w)) k = Some q \<longrightarrow>
      e \<notin> pd_eventId ` set (processedEvents q)"
    by blast+
  from Cons.IH [OF this] show ?case by simp
qed

lemma persistEventsInSubscriberQueues_exclusive:
  assumes "allExclusive w" and "unusedId e w"
  shows "allExclusive (persistEventsInSubscriberQueues e t c w)"
proof -
  from assms(2) have "\<forall>k q. queueFiles (files w) k = Some q \<longrightarrow>
      e \<notin> pd_eventId ` set (processedEvents q)"
    unfolding unusedId_def by blast
  with assms(1) show ?thesis
    by (simp add: persistEventsInSubscriberQueues_def fold_pushToQueue_exclusive
        split: option.splits)
qed

subsection \<open>Deliveries in flight\<close>

lemma incrementedQueue_exclusive:
  "exclusive q \<Longrightarrow> incrementedQueue e q = Some q' \<Longrightarrow> exclusive q'"
  by (auto simp: incrementedQueue_def Let_def exclusive_bump split: option.splits)

lemma acknowledgedQueue_exclusive:
  assumes "exclusive q" and "acknowledgedQueue e now q = Some q'"
  shows "exclusive q'"
proof (cases "findIndex (\<lambda>v. pg_eventId v = e) (processingEvents q)")
  case None
  with assms(2) show ?thesis by (simp add: acknowledgedQueue_absent)
next
  case (Some i)
  with assms(2) have "q' = q\<lparr>processedEvents := processedEvents q @
             [\<lparr>pd_eventId = e, pd_tries = pg_tries (processingEvents q ! i), pd_processedAt = now\<rparr>],
           processingEvents := filter (\<lambda>v. pg_eventId v \<noteq> e) (processingEvents q)\<rparr>"
    by (simp add: acknowledgedQueue_found)
  with assms(1) show ?thesis by (simp add: exclusive_acknowledge)
qed

lemma files_startInFlight [simp]: "files (startInFlight h s t c tries e w) = files w"
  by (simp add: startInFlight_def)

lemma replay_files: "files (replay h s t vs w) = files w"
  by (induction vs arbitrary: w) simp_all

lemma emit_files: "files (emit t c e ls w) = files w"
  by (induction ls arbitrary: w) simp_all

lemma pendingExclusive_nextAttempt: "pendingExclusive (nextAttempt d w)"
  by (simp add: pendingExclusive_def nextAttempt_def Let_def)

lemma pendingExclusive_startDelivery: "pendingExclusive (startDelivery h s t c tries e w)"
  by (simp add: startDelivery_def pendingExclusive_nextAttempt)

lemma inFlight_stepDelivery: "inFlight (snd (stepDelivery d w)) = inFlight w"
  by (cases "dv_phase d")
    (simp_all add: stepDelivery_def writeJSON_queue_def Let_def split: option.splits sum.splits)

lemma stepDelivery_consistent:
  assumes "allExclusive w" and "pendingExclusive d"
  shows "allExclusive (snd (stepDelivery d w)) \<and> pendingExclusive (fst (stepDelivery d w))"
proof (cases "dv_phase d")
  case (AwaitTimer due)
  with assms(1) show ?thesis
    by (simp add: stepDelivery_def pendingExclusive_def allExclusive_def)
next
  case AwaitIncrementRead
  show ?thesis
  proof (cases "readJSON_queue (dv_subscriber d) (dv_topic d) w")
    case None
    with AwaitIncrementRead assms(1) show ?thesis
      by (simp add: stepDelivery_def pendingExclusive_nextAttempt)
  next
    case (Some q)
    then have "exclusive q"
      using assms(1) by (simp add: readJSON_queue_def allExclusive_queue)
    show ?thesis
    proof (cases "incrementedQueue (dv_parentId d) q")
      case None
      with AwaitIncrementRead Some assms(1) show ?thesis
        by (simp add: stepDelivery_def pendingExclusive_nextAttempt)
    next
      case (Some q')
      with \<open>exclusive q\<close> have "exclusive q'" by (simp add: incrementedQueue_exclusive)
      with AwaitIncrementRead Some \<open>readJSON_queue (dv_subscriber d) (dv_topic d) w = Some q\<close>
        assms(1) show ?thesis
        by (simp add: stepDelivery_def pendingExclusive_def)
    qed
  qed
next
  case (AwaitIncrementWrite q)
  with assms show ?thesis
    by (simp add: stepDelivery_def pendingExclusive_def allExclusive_writeJSON_queue)
next
  case AwaitHandlerCall
  with assms(1) show ?thesis
    by (simp add: stepDelivery_def pendingExclusive_def allExclusive_def Let_def)
next
  case (AwaitHandler outcome)
  show ?thesis
  proof (cases outcome)
    case (Inl err)
    with AwaitHandler assms(1) show ?thesis
      by (simp add: stepDelivery_def pendingExclusive_nextAttempt)
  next
    case (Inr u)
    with AwaitHandler assms(1) show ?thesis
      by (simp add: stepDelivery_def pendingExclusive_def)
  qed
next
  case AwaitAcknowledgeRead
  show ?thesis
  proof (cases "readJSON_queue (dv_subscriber d) (dv_topic d) w")
    case None
    with AwaitAcknowledgeRead assms(1) show ?thesis
      by (simp add: stepDelivery_def pendingExclusive_nextAttempt)
  next
    case (Some q)
    then have "exclusive q"
      using assms(1) by (simp add: readJSON_queue_def allExclusive_queue)
    show ?thesis
    proof (cases "acknowledgedQueue (dv_parentId d) (clock w) q")
      case None
      with AwaitAcknowledgeRead Some assms(1) show ?thesis
        by (simp add: stepDelivery_def pendingExclusive_nextAttempt)
    next
      case (Some q')
      with \<open>exclusive q\<close> have "exclusive q'" by (simp add: acknowledgedQueue_exclusive)
      with AwaitAcknowledgeRead Some \<open>readJSON_queue (dv_subscriber d) (dv_topic d) w = Some q\<close>
        assms(1) show ?thesis
        by (simp add: stepDelivery_def pendingExclusive_def)
    qed
  qed
next
  case (AwaitAcknowledgeWrite q)
  with assms show ?thesis
    by (simp add: stepDelivery_def pendingExclusive_def allExclusive_writeJSON_queue)
next
  case Finished
  with assms show ?thesis
    by (simp add: stepDelivery_def)
qed

lemma startInFlight_consistent: "consistent w \<Longrightarrow> consistent (startInFlight h s t c tries e w)"
  by (simp add: consistent_def allExclusive_def startInFlight_def pendingExclusive_startDelivery)

lemma stepInFlight_consistent:
  assumes "consistent w"
  shows "consistent (stepInFlight i w)"
proof (cases "i < length (inFlight w)")
  case False
  with assms show ?thesis by (simp add: stepInFlight_def)
next
  case True
  obtain d' w' where step: "stepDelivery (inFlight w ! i) w = (d', w')"
    by (cases "stepDelivery (inFlight w ! i) w")
  from assms True have "pendingExclusive (inFlight w ! i)"
    by (simp add: consistent_def list_all_length)
  with assms stepDelivery_consistent [of w "inFlight w ! i"] step
  have "allExclusive w'" and "pendingExclusive d'"
    by (simp_all add: consistent_def)
  moreover from assms have "list_all pendingExclusive ((inFlight w)[i := d'])"
    using \<open>pendingExclusive d'\<close>
    by (auto simp: consistent_def list_all_iff dest: set_update_subset_insert [THEN subsetD])
  ultimately show ?thesis
    using True step by (simp add: stepInFlight_def consistent_def allExclusive_def)
qed

lemma stepAll_consistent:
  "allExclusive w \<Longrightarrow> list_all pendingExclusive ds \<Longrightarrow>
   allExclusive (snd (stepAll ds w)) \<and> list_all pendingExclusive (fst (stepAll ds w))"
proof (induction ds arbitrary: w)
  case Nil
  then show ?case by simp
next
  case (Cons d ds)
  obtain d' w' where step: "(if eligible (clock w) d then stepDelivery d w else (d, w)) = (d', w')"
    by (cases "if eligible (clock w) d then stepDelivery d w else (d, w)")
  from Cons.prems have "allExclusive w" and "pendingExclusive d" and "list_all pendingExclusive ds"
    by simp_all
  with stepDelivery_consistent [of w d] step have first: "allExclusive w'" "pendingExclusive d'"
    by (auto split: if_splits)
  from Cons.IH [OF first(1) \<open>list_all pendingExclusive ds\<close>] first(2) step show ?case
    by (simp add: split_def)
qed

lemma eventLoop_consistent:
  assumes "consistent w"
  shows "consistent (eventLoop w)"
proof -
  let ?w0 = "if list_ex (eligible (clock w)) (inFlight w) then w
             else (case timers (inFlight w) of
                     [] \<Rightarrow> w
                   | due # dues \<Rightarrow> w\<lparr>clock := max (clock w) (fold min dues due)\<rparr>)"
  from assms have "allExclusive ?w0" and "list_all pendingExclusive (inFlight ?w0)"
    by (simp_all add: consistent_def allExclusive_def split: list.splits)
  from stepAll_consistent [OF this] show ?thesis
    by (simp add: eventLoop_def consistent_def allExclusive_def split_def Let_def)
qed

lemma turns_consistent: "consistent w \<Longrightarrow> consistent (turns n stop w)"
  by (induction n arbitrary: w) (simp_all add: eventLoop_consistent)

lemma awaitAll_consistent: "consistent w \<Longrightarrow> consistent (awaitAll n w)"
  by (simp add: awaitAll_def turns_consistent)

lemma settle_consistent: "consistent w \<Longrightarrow> consistent (settle w)"
  by (simp add: settle_def turns_consistent)

lemma replay_consistent: "consistent w \<Longrightarrow> consistent (replay h s t vs w)"
  by (induction vs arbitrary: w) (simp_all add: startInFlight_consistent)

lemma emit_consistent: "consistent w \<Longrightarrow> consistent (emit t c e ls w)"
  by (induction ls arbitrary: w) (simp_all add: startInFlight_consistent)

text \<open>The operations that do not touch the deliveries in flight.\<close>

lemma consistent_same_pool:
  "consistent w \<Longrightarrow> allExclusive w' \<Longrightarrow> inFlight w' = inFlight w \<Longrightarrow> consistent w'"
  by (simp add: consistent_def)

lemma initializeQueue_inFlight: "inFlight (snd (initializeQueue s t w)) = inFlight w"
  by (simp add: initializeQueue_def writeJSON_queue_def Let_def split: option.splits)

lemma registerTopic_inFlight: "inFlight (snd (registerTopic s t w)) = inFlight w"
  by (simp add: registerTopic_def Let_def split: option.splits)

lemma persistEvent_inFlight: "inFlight (persistEvent e t c p w) = inFlight w"
  by (simp add: persistEvent_def writeJSON_log_def Let_def)

lemma persistEventsInSubscriberQueues_inFlight:
  "inFlight (persistEventsInSubscriberQueues e t c w) = inFlight w"
proof -
  have "inFlight (fold (pushToQueue e t c) subs w) = inFlight w" for subs
    by (induction subs arbitrary: w)
      (simp_all add: pushToQueue_def writeJSON_queue_def split: option.splits)
  then show ?thesis
    by (simp add: persistEventsInSubscriberQueues_def split: option.splits)
qed

lemma subscribe_consistent:
  assumes "consistent w"
  shows "consistent (snd (subscribe s t h w))"
proof (cases "registerTopic s t w")
  case (Pair res w1)
  with registerTopic_files [of s t w] registerTopic_inFlight [of s t w] assms
  have c1: "consistent w1"
    by (simp add: consistent_def allExclusive_def)
  show ?thesis
  proof (cases res)
    case (Inl err)
    with Pair c1 show ?thesis by (simp add: subscribe_def)
  next
    case (Inr u)
    obtain q w2 where iq: "initializeQueue s t w1 = (q, w2)"
      by (cases "initializeQueue s t w1")
    from c1 have "allExclusive (snd (initializeQueue s t w1))"
      by (simp add: consistent_def initializeQueue_exclusive)
    with c1 initializeQueue_inFlight [of s t w1] iq have c2: "consistent w2"
      by (simp add: consistent_def)
    have "consistent (awaitAll (length (inFlight w2)) (replay h s t (processingEvents q) w2))"
      using c2 by (intro awaitAll_consistent replay_consistent)
    then show ?thesis
      using Pair Inr iq by (simp add: subscribe_def Let_def consistent_def allExclusive_def)
  qed
qed

lemma publish_consistent:
  assumes "consistent w" and "unusedId e w"
  shows "consistent (publish e p t c w)"
proof -
  let ?w1 = "persistEvent e t c p w"
  let ?w2 = "persistEventsInSubscriberQueues e t c ?w1"
  from assms(1) have "allExclusive ?w1"
    by (simp add: consistent_def persistEvent_exclusive)
  moreover have "unusedId e ?w1" using assms(2) by (rule persistEvent_unusedId)
  ultimately have "allExclusive ?w2"
    by (rule persistEventsInSubscriberQueues_exclusive)
  with assms(1) have "consistent ?w2"
    by (simp add: consistent_def persistEventsInSubscriberQueues_inFlight persistEvent_inFlight)
  then show ?thesis
    by (simp add: publish_def Let_def emit_consistent)
qed

lemma sameExceptQueue_inFlight: "sameExceptQueue s t w w' \<Longrightarrow> inFlight w' = inFlight w"
  by (simp add: sameExceptQueue_def)

lemma reachable_consistent: "reachable w \<Longrightarrow> consistent w"
proof (induction rule: reachable.induct)
  case fresh
  show ?case
    by (simp add: consistent_def allExclusive_initialWorld) (simp add: initialWorld_def)
next
  case (restarted w)
  then show ?case by (simp add: consistent_def allExclusive_def restart_def)
next
  case (initialized w s)
  then show ?case
    by (simp add: consistent_def allExclusive_def subscriberInitializer_def split: option.splits)
next
  case (subscribed w s t h)
  then show ?case by (simp add: subscribe_consistent)
next
  case (published w eventId parentId t c)
  then show ?case by (simp add: publish_consistent)
next
  case (registered w s t)
  then show ?case
    by (simp add: consistent_def allExclusive_def registerTopic_files registerTopic_inFlight)
next
  case (queueInitialized w s t)
  then show ?case
    by (simp add: consistent_def initializeQueue_exclusive initializeQueue_inFlight)
next
  case (replayed w h s t vs)
  then show ?case by (simp add: replay_consistent)
next
  case (executed w h s t c tries eventId)
  then show ?case
    by (simp add: consistent_def executeEventHandler_exclusive
        sameExceptQueue_inFlight [OF executeEventHandler_frame])
next
  case (tried w s t eventId c h isRetry)
  then show ?case
    by (simp add: consistent_def tryProcessing_exclusive
        sameExceptQueue_inFlight [OF tryProcessing_frame])
next
  case (incremented w s t eventId)
  then show ?case
    by (simp add: consistent_def incrementTries_exclusive
        sameExceptQueue_inFlight [OF incrementTries_frame])
next
  case (acknowledged w s t eventId)
  then show ?case
    by (simp add: consistent_def eventAcknowledged_exclusive
        sameExceptQueue_inFlight [OF eventAcknowledged_frame])
next
  case (logged w eventId t c parentId)
  then show ?case
    by (simp add: consistent_def persistEvent_exclusive persistEvent_inFlight)
next
  case (fannedOut w eventId t c)
  then show ?case
    by (simp add: consistent_def persistEventsInSubscriberQueues_exclusive
        persistEventsInSubscriberQueues_inFlight)
next
  case (emitted w t c eventId ls)
  then show ?case by (simp add: emit_consistent)
next
  case (started w h s t c tries eventId)
  then show ?case by (simp add: startInFlight_consistent)
next
  case (stepped w i)
  then show ?case by (simp add: stepInFlight_consistent)
next
  case (turned w)
  then show ?case by (simp add: eventLoop_consistent)
next
  case (awaited w n)
  then show ?case by (simp add: awaitAll_consistent)
next
  case (settled w)
  then show ?case by (simp add: settle_consistent)
next
  case (overwritten w w' s t q)
  from overwritten.IH(2) overwritten.hyps(3) have "exclusive q"
    using allExclusive_queue by (auto simp: consistent_def)
  with overwritten.IH(1) have "allExclusive (writeJSON_queue s t q w)"
    by (simp add: consistent_def allExclusive_writeJSON_queue)
  with overwritten.IH(1) show ?case
    by (simp add: consistent_def) (simp add: writeJSON_queue_def)
qed

lemma acknowledged_in_one_write:
  assumes "fst (eventAcknowledged s t e w) = Inr ()"
  shows "\<exists>q'. snd (eventAcknowledged s t e w) = writeJSON_queue s t q' w \<and>
           e \<notin> pg_eventId ` set (processingEvents q') \<and>
           e \<in> pd_eventId ` set (processedEvents q')"
proof (cases "queueFiles (files w) (s, t)")
  case None
  with assms show ?thesis by (simp add: eventAcknowledged_missing)
next
  case (Some q)
  show ?thesis
  proof (cases "findIndex (\<lambda>v. pg_eventId v = e) (processingEvents q)")
    case None
    with Some assms show ?thesis
      by (simp add: eventAcknowledged_def readJSON_queue_def)
  next
    case (Some i)
    show ?thesis
      by (simp add: eventAcknowledged_found [OF \<open>queueFiles (files w) (s, t) = Some q\<close> Some])
        (rule exI, rule conjI, rule refl, auto)
  qed
qed

text \<open>
  C3. In every reachable world, and for every queue file in it, no event id is in both
  \<open>processingEvents\<close> and \<open>processedEvents\<close>. The reachable worlds are
  closed under subscription initialisation, the fan-out of \<open>publish\<close>,
  \<open>incrementTries\<close> and \<open>eventAcknowledged\<close> (each also as a step of its
  own, and as the reads and writes of the deliveries in flight, in any order), so each
  of them preserves the property. And a successful
  \<open>eventAcknowledged\<close> is one write of the queue file, in which the event id is in
  \<open>processedEvents\<close> and no longer in \<open>processingEvents\<close>.
\<close>

theorem processing_and_processed_exclusive:
  "(reachable w \<and> queueFiles (files w) (s, t) = Some q \<longrightarrow>
      \<not> (e \<in> pg_eventId ` set (processingEvents q) \<and> e \<in> pd_eventId ` set (processedEvents q))) \<and>
   (fst (eventAcknowledged s t e w) = Inr () \<longrightarrow>
      (\<exists>q'. snd (eventAcknowledged s t e w) = writeJSON_queue s t q' w \<and>
         e \<notin> pg_eventId ` set (processingEvents q') \<and>
         e \<in> pd_eventId ` set (processedEvents q')))"
proof (intro conjI impI)
  assume "reachable w \<and> queueFiles (files w) (s, t) = Some q"
  then have "exclusive q"
    using reachable_consistent consistent_def allExclusive_queue by blast
  then show "\<not> (e \<in> pg_eventId ` set (processingEvents q) \<and>
      e \<in> pd_eventId ` set (processedEvents q))"
    unfolding exclusive_def by blast
next
  assume "fst (eventAcknowledged s t e w) = Inr ()"
  then show "\<exists>q'. snd (eventAcknowledged s t e w) = writeJSON_queue s t q' w \<and>
         e \<notin> pg_eventId ` set (processingEvents q') \<and>
         e \<in> pd_eventId ` set (processedEvents q')"
    by (rule acknowledged_in_one_write)
qed


lemma publishedWorld_reachable: "reachable publishedWorld"
proof -
  have "unusedId ''e1'' initialWorld"
    by (simp add: unusedId_def initialWorld_def emptyFiles_def)
  with reachable.fresh have "reachable (publish ''e1'' ''p0'' ORDER_CREATED ''{x:1}'' initialWorld)"
    by (rule reachable.published)
  then show ?thesis
    unfolding publishedWorld_def by (rule reachable.initialized)
qed

lemma publishedWorld_calls: "handlerCalls publishedWorld = []"
  by (simp add: publishedWorld_def subscriberInitializer_def publish_def persistEvent_def
      persistEventsInSubscriberQueues_def readJSON_log_def writeJSON_log_def initialWorld_def
      emptyFiles_def Let_def)

lemma publishedWorld_clock: "clock publishedWorld = 0"
  by (simp add: publishedWorld_def subscriberInitializer_def publish_def persistEvent_def
      persistEventsInSubscriberQueues_def readJSON_log_def writeJSON_log_def initialWorld_def
      emptyFiles_def Let_def)

lemma queuedWorld_eq: "queuedWorld = writeJSON_queue PAYMENT ORDER_CREATED pendingQueue publishedWorld"
  by (simp add: queuedWorld_def initializeQueue_def readJSON_queue_def readJSON_log_def
      publishedWorld_queue publishedWorld_log pendingQueue_def Let_def)

lemma queuedWorld_queue:
  "queueFiles (files queuedWorld) (PAYMENT, ORDER_CREATED) = Some pendingQueue"
  by (simp add: queuedWorld_eq)

lemma queuedWorld_calls: "handlerCalls queuedWorld = []"
  by (simp add: queuedWorld_eq publishedWorld_calls)

lemma queuedWorld_clock: "clock queuedWorld = 0"
  by (simp add: queuedWorld_eq publishedWorld_clock)

lemma deliveredWorld_reachable: "reachable deliveredWorld"
proof -
  from publishedWorld_reachable have "reachable queuedWorld"
    unfolding queuedWorld_def by (rule reachable.queueInitialized)
  then show ?thesis
    unfolding deliveredWorld_def by (rule reachable.executed)
qed

lemma deliveredWorld_queue:
  "queueFiles (files deliveredWorld) (PAYMENT, ORDER_CREATED) =
     Some (pendingQueue\<lparr>processedEvents :=
              [\<lparr>pd_eventId = ''e1'', pd_tries = 1, pd_processedAt = 5000\<rparr>],
            processingEvents := []\<rparr>)"
proof -
  have fails: "\<forall>hist. length hist < length (handlerCalls queuedWorld) + 0 \<longrightarrow>
      isl (alwaysSucceeds hist ''e1'' ''{x:1}'')"
    by (simp add: queuedWorld_calls)
  have ok: "\<forall>hist. length hist = length (handlerCalls queuedWorld) + 0 \<longrightarrow>
      alwaysSucceeds hist ''e1'' ''{x:1}'' = Inr ()"
    by (simp add: alwaysSucceeds_def)
  have "(0::nat) \<le> 0" and "(0::nat) + 0 < 5" by simp_all
  from loop_fails_then_succeeds [where h = alwaysSucceeds and e = "''e1''" and c = "''{x:1}''"
      and m = 0, OF fails ok queuedWorld_queue pendingWorld_index this]
  show ?thesis
    unfolding deliveredWorld_def executeEventHandler_def
    by (simp add: pendingQueue_def queuedWorld_clock)
qed

theorem processing_and_processed_exclusive_witness:
  "reachable deliveredWorld \<and>
   queueFiles (files deliveredWorld) (PAYMENT, ORDER_CREATED) =
     Some (pendingQueue\<lparr>processedEvents :=
              [\<lparr>pd_eventId = ''e1'', pd_tries = 1, pd_processedAt = 5000\<rparr>],
            processingEvents := []\<rparr>) \<and>
   ''e1'' \<in> pd_eventId ` set (processedEvents (pendingQueue\<lparr>processedEvents :=
              [\<lparr>pd_eventId = ''e1'', pd_tries = 1, pd_processedAt = 5000\<rparr>],
            processingEvents := []\<rparr>)) \<and>
   ''e1'' \<notin> pg_eventId ` set (processingEvents (pendingQueue\<lparr>processedEvents :=
              [\<lparr>pd_eventId = ''e1'', pd_tries = 1, pd_processedAt = 5000\<rparr>],
            processingEvents := []\<rparr>)) \<and>
   fst (eventAcknowledged PAYMENT ORDER_CREATED ''e1'' queuedWorld) = Inr () \<and>
   (\<exists>q'. queueFiles (files (snd (eventAcknowledged PAYMENT ORDER_CREATED ''e1'' queuedWorld)))
           (PAYMENT, ORDER_CREATED) = Some q' \<and>
         ''e1'' \<notin> pg_eventId ` set (processingEvents q') \<and>
         ''e1'' \<in> pd_eventId ` set (processedEvents q'))"
proof -
  let ?q = "pendingQueue\<lparr>processedEvents :=
              [\<lparr>pd_eventId = ''e1'', pd_tries = 1, pd_processedAt = 5000\<rparr>],
            processingEvents := []\<rparr>"
  note inst1 = processing_and_processed_exclusive
    [of deliveredWorld PAYMENT ORDER_CREATED ?q "''e1''"]
  note inst2 = processing_and_processed_exclusive
    [of queuedWorld PAYMENT ORDER_CREATED ?q "''e1''"]
  have processed: "''e1'' \<in> pd_eventId ` set (processedEvents ?q)"
    by simp
  from inst1 deliveredWorld_reachable deliveredWorld_queue
  have "\<not> (''e1'' \<in> pg_eventId ` set (processingEvents ?q) \<and>
      ''e1'' \<in> pd_eventId ` set (processedEvents ?q))"
    by blast
  with processed have gone: "''e1'' \<notin> pg_eventId ` set (processingEvents ?q)"
    by blast
  have ack: "fst (eventAcknowledged PAYMENT ORDER_CREATED ''e1'' queuedWorld) = Inr ()"
    by (simp add: eventAcknowledged_found [OF queuedWorld_queue pendingWorld_index])
  from inst2 ack obtain q' where
    "snd (eventAcknowledged PAYMENT ORDER_CREATED ''e1'' queuedWorld) =
       writeJSON_queue PAYMENT ORDER_CREATED q' queuedWorld"
    "''e1'' \<notin> pg_eventId ` set (processingEvents q')"
    "''e1'' \<in> pd_eventId ` set (processedEvents q')"
    by blast
  then have moved: "\<exists>q'. queueFiles (files (snd (eventAcknowledged PAYMENT ORDER_CREATED ''e1''
      queuedWorld))) (PAYMENT, ORDER_CREATED) = Some q' \<and>
         ''e1'' \<notin> pg_eventId ` set (processingEvents q') \<and>
         ''e1'' \<in> pd_eventId ` set (processedEvents q')"
    by simp
  from deliveredWorld_reachable deliveredWorld_queue processed gone ack moved
  show ?thesis by blast
qed

section \<open>Deliveries of other events\<close>

lemma pendingEntries_same_files: "files w' = files w \<Longrightarrow> pendingEntries e k w' = pendingEntries e k w"
  by (simp add: pendingEntries_def)














subsection \<open>Other deliveries in flight\<close>

















section \<open>An exhausted entry stays where it is\<close>






section \<open>The event log\<close>

text \<open>
  Each \<open>publish\<close> appends one event to the log of its topic and leaves the other
  logs alone; a delivery never writes a log. So the log that \<open>initializeQueue\<close>
  reads holds the events published to the topic, in the order of publication.
\<close>

lemma emit_eventFiles: "eventFiles (files (emit t c e ls w)) = eventFiles (files w)"
  by (simp add: emit_files)

lemma fold_pushToQueue_eventFiles:
  "eventFiles (files (fold (pushToQueue e t c) subs w)) = eventFiles (files w)"
  by (induction subs arbitrary: w)
    (simp_all add: pushToQueue_def readJSON_queue_def writeJSON_queue_def split: option.splits)

lemma publish_appends_to_log:
  "\<exists>l. eventFiles (files (publish e p t c w)) t = Some l \<and> el_topic l = (case eventFiles (files w) t of None \<Rightarrow> t | Some l0 \<Rightarrow> el_topic l0) \<and>
     el_events l = (case eventFiles (files w) t of None \<Rightarrow> [] | Some l0 \<Rightarrow> el_events l0) @
       [\<lparr>le_parentId = p, le_eventId = e, le_content = c\<rparr>]"
  by (simp add: publish_def Let_def emit_eventFiles persistEventsInSubscriberQueues_def
      fold_pushToQueue_eventFiles persistEvent_def readJSON_log_def writeJSON_log_def
      split: option.splits)

lemma publish_other_logs:
  "t' \<noteq> t \<Longrightarrow> eventFiles (files (publish e p t c w)) t' = eventFiles (files w) t'"
  by (simp add: publish_def Let_def emit_eventFiles persistEventsInSubscriberQueues_def
      fold_pushToQueue_eventFiles persistEvent_def readJSON_log_def writeJSON_log_def
      split: option.splits)

end
